theory Spec2Isabelle
  imports Main "HOL-Library.Word"
begin

unbundle bit_operations_syntax

section \<open>Data model\<close>

text \<open>
  A JavaScript string is a sequence of 16-bit code units; \<open>charCodeAt\<close> reads a unit
  as a number (\<open>uint\<close>) and \<open>String.fromCharCode\<close> truncates a number to 16 bits
  (\<open>word_of_int\<close>). Numbers are modelled as \<open>int\<close>: every number the codec computes
  is an integer of magnitude below \<open>2^53\<close>, where double arithmetic is exact, and
  \<open>Math.floor (a / b)\<close> for a positive divisor is \<open>a div b\<close>.
\<close>

type_synonym jsstring = "16 word list"

datatype PunycodeErrorType = Overflow | NotBasic | InvalidInput

definition PUNYCODE_ERRORS :: "PunycodeErrorType \<Rightarrow> string" where
  "PUNYCODE_ERRORS type =
     (case type of
        Overflow \<Rightarrow> ''Overflow: input needs wider integers to process''
      | NotBasic \<Rightarrow> ''Illegal input >= 0x80 (not a basic code point)''
      | InvalidInput \<Rightarrow> ''Invalid input'')"

text \<open>
  What a call can throw: the \<open>RangeError\<close> built by \<open>error\<close> from a message of the
  table, the \<open>RangeError\<close> of the built-in \<open>String.fromCodePoint\<close> for a number
  that is no code point (its message is left to the engine, so the offending number is
  kept instead), or the error of the engine for a call with more arguments than it takes
  (in Node a \<open>RangeError\<close> with the message \<open>Maximum call stack size exceeded\<close>).
\<close>

datatype exn = RangeError string | InvalidCodePoint int | StackSizeExceeded

definition error :: "PunycodeErrorType \<Rightarrow> exn + 'a" where
  "error type = Inl (RangeError (PUNYCODE_ERRORS type))"

definition maxInt :: int where "maxInt = 2147483647"
definition base :: int where "base = 36"
definition tMin :: int where "tMin = 1"
definition tMax :: int where "tMax = 26"
definition skew :: int where "skew = 38"
definition damp :: int where "damp = 700"
definition initialBias :: int where "initialBias = 72"
definition initialN :: int where "initialN = 128"
definition delimiter :: "16 word" where "delimiter = 0x2D"
definition baseMinusTMin :: int where "baseMinusTMin = base - tMin"

named_theorems params \<open>the Bootstring parameters\<close>

lemmas [params] = maxInt_def base_def tMin_def tMax_def skew_def damp_def initialBias_def
  initialN_def delimiter_def baseMinusTMin_def

section \<open>Built-in operations of the language\<close>

text \<open>\<open>x >> k\<close>: the number is truncated to a signed 32-bit integer and shifted
  arithmetically.\<close>

definition toInt32 :: "int \<Rightarrow> int" where
  "toInt32 x = (x + 2 ^ 31) mod 2 ^ 32 - 2 ^ 31"

definition sar32 :: "int \<Rightarrow> nat \<Rightarrow> int" where
  "sar32 x k = toInt32 x div 2 ^ k"

text \<open>\<open>x << k\<close>: the truncated number is shifted and truncated again.\<close>

definition shl32 :: "int \<Rightarrow> nat \<Rightarrow> int" where
  "shl32 x k = toInt32 (toInt32 x * 2 ^ k)"

text \<open>\<open>a % b\<close> takes the sign of the dividend.\<close>

definition jsRem :: "int \<Rightarrow> int \<Rightarrow> int" where
  "jsRem a b = sgn a * (\<bar>a\<bar> mod \<bar>b\<bar>)"

text \<open>\<open>s.lastIndexOf(c)\<close> for a one-unit search string: the last index of \<open>c\<close>, or
  \<open>-1\<close>.\<close>

fun lastIndexOf :: "jsstring \<Rightarrow> 16 word \<Rightarrow> int" where
  "lastIndexOf [] c = -1"
| "lastIndexOf (x # xs) c =
     (let r = lastIndexOf xs c
      in if 0 \<le> r then r + 1 else if x = c then 0 else -1)"

text \<open>\<open>s.split(c)\<close> for a one-unit separator: the pieces between the occurrences of
  \<open>c\<close>; the empty string gives one empty piece.\<close>

fun split :: "16 word \<Rightarrow> jsstring \<Rightarrow> jsstring list" where
  "split c [] = [[]]"
| "split c (x # xs) =
     (if x = c then [] # split c xs
      else (case split c xs of [] \<Rightarrow> [[x]] | p # ps \<Rightarrow> (x # p) # ps))"

text \<open>\<open>pieces.join(c)\<close>.\<close>

fun join :: "16 word \<Rightarrow> jsstring list \<Rightarrow> jsstring" where
  "join c [] = []"
| "join c [p] = p"
| "join c (p # q # ps) = p @ c # join c (q # ps)"

text \<open>
  The built-in \<open>String.fromCodePoint\<close> on the numbers it is given: a number outside
  \<open>[0, 0x10FFFF]\<close> throws a \<open>RangeError\<close>; a code point above \<open>0xFFFF\<close> becomes a
  surrogate pair; any other one, a lone surrogate included, becomes one unit. How many
  arguments the call \<open>String.fromCodePoint(...points)\<close> can pass is the matter of the
  engine, see \<open>decodeOn\<close> below.
\<close>

fun fromCodePoint :: "int list \<Rightarrow> exn + jsstring" where
  "fromCodePoint [] = Inr []"
| "fromCodePoint (cp # cps) =
     (if cp < 0 \<or> 0x10FFFF < cp then Inl (InvalidCodePoint cp)
      else (case fromCodePoint cps of
              Inl e \<Rightarrow> Inl e
            | Inr s \<Rightarrow>
                if cp \<le> 0xFFFF then Inr (word_of_int cp # s)
                else Inr (word_of_int ((cp - 0x10000) div 0x400 + 0xD800)
                          # word_of_int ((cp - 0x10000) mod 0x400 + 0xDC00) # s)))"

section \<open>The regular expressions\<close>

definition xn_prefix :: jsstring where
  "xn_prefix = [0x78, 0x6E, 0x2D, 0x2D]"

text \<open>\<open>/^xn--/.test(s)\<close>: the match is case-sensitive.\<close>

definition regexPunycode :: "jsstring \<Rightarrow> bool" where
  "regexPunycode s = (take 4 s = xn_prefix)"

text \<open>\<open>/[^\0-\x7F]/.test(s)\<close>.\<close>

definition regexNonASCII :: "jsstring \<Rightarrow> bool" where
  "regexNonASCII s = list_ex (\<lambda>c. 0x7F < uint c) s"

text \<open>\<open>/[\x2E\u3002\uFF0E\uFF61]/g\<close>, and \<open>s.replace\<close> of every match by
  \<open>'\x2E'\<close>.\<close>

definition regexSeparators :: "16 word \<Rightarrow> bool" where
  "regexSeparators c = (c = 0x2E \<or> c = 0x3002 \<or> c = 0xFF0E \<or> c = 0xFF61)"

definition replaceSeparators :: "jsstring \<Rightarrow> jsstring" where
  "replaceSeparators s = map (\<lambda>c. if regexSeparators c then 0x2E else c) s"

section \<open>Code-point conversion\<close>

text \<open>
  \<open>ucs2decode\<close>: the loop over \<open>counter\<close> as a recursion over the units left. The
  bit operations act on numbers below \<open>2^16\<close>, where the 32-bit truncation changes
  nothing.
\<close>

fun ucs2decode :: "jsstring \<Rightarrow> int list" where
  "ucs2decode [] = []"
| "ucs2decode [v] = [uint v]"
| "ucs2decode (v # e # rest) =
     (let value = uint v in
      if 0xD800 \<le> value \<and> value \<le> 0xDBFF then
        (let extra = uint e in
         if extra AND 0xFC00 = 0xDC00
         then (push_bit 10 (value AND 0x3FF) + (extra AND 0x3FF) + 0x10000) # ucs2decode rest
         else value # ucs2decode (e # rest))
      else value # ucs2decode (e # rest))"

definition ucs2encode :: "int list \<Rightarrow> exn + jsstring" where
  "ucs2encode codePoints = fromCodePoint codePoints"

section \<open>Digits and bias adaptation\<close>

definition basicToDigit :: "int \<Rightarrow> int" where
  "basicToDigit codePoint =
     (if 0x30 \<le> codePoint \<and> codePoint < 0x3A then 26 + (codePoint - 0x30)
      else if 0x41 \<le> codePoint \<and> codePoint < 0x5B then codePoint - 0x41
      else if 0x61 \<le> codePoint \<and> codePoint < 0x7B then codePoint - 0x61
      else base)"

definition digitToBasic :: "int \<Rightarrow> int \<Rightarrow> int" where
  "digitToBasic digit flag =
     digit + 22 + 75 * (if digit < 26 then 1 else 0) - shl32 (if flag \<noteq> 0 then 1 else 0) 5"

text \<open>The loop of \<open>adapt\<close>: \<open>baseMinusTMin * tMax >> 1\<close> is \<open>(35 * 26) >> 1\<close>.\<close>

function adaptLoop :: "int \<Rightarrow> int \<Rightarrow> int \<times> int" where
  "adaptLoop delta k =
     (if delta > sar32 (baseMinusTMin * tMax) 1
      then adaptLoop (delta div baseMinusTMin) (k + base)
      else (delta, k))"
  by pat_completeness auto
termination
  by (relation "measure (\<lambda>(delta, k). nat delta)")
     (auto simp: params sar32_def toInt32_def)

definition adapt :: "int \<Rightarrow> int \<Rightarrow> bool \<Rightarrow> int" where
  "adapt delta numPoints firstTime =
     (let delta1 = (if firstTime then delta div damp else sar32 delta 1);
          delta2 = delta1 + delta1 div numPoints;
          (delta3, k) = adaptLoop delta2 0
      in k + (baseMinusTMin + 1) * delta3 div (delta3 + skew))"

text \<open>The threshold of the digit at position \<open>k\<close>, which both loops compute in
  place: \<open>k <= bias ? tMin : (k >= bias + tMax ? tMax : k - bias)\<close>.\<close>

definition threshold :: "int \<Rightarrow> int \<Rightarrow> int" where
  "threshold k bias =
     (if k \<le> bias then tMin else if k \<ge> bias + tMax then tMax else k - bias)"

section \<open>decode\<close>

text \<open>The copy of the basic code points: a unit \<open>\<ge> 0x80\<close> before the last delimiter
  throws.\<close>

fun copyBasic :: "jsstring \<Rightarrow> int list \<Rightarrow> exn + int list" where
  "copyBasic [] output = Inr output"
| "copyBasic (c # cs) output =
     (if uint c \<ge> 0x80 then error NotBasic else copyBasic cs (output @ [uint c]))"

text \<open>
  The inner loop reads one generalized variable-length integer. The units from
  \<open>index\<close> on are the list argument: \<open>index >= inputLength\<close> is the empty list. It
  returns the new \<open>i\<close> and the units left.
\<close>

fun decodeDigits :: "jsstring \<Rightarrow> int \<Rightarrow> int \<Rightarrow> int \<Rightarrow> int \<Rightarrow> exn + (int \<times> jsstring)" where
  "decodeDigits [] i w k bias = error InvalidInput"
| "decodeDigits (c # cs) i w k bias =
     (let digit = basicToDigit (uint c) in
      if digit \<ge> base then error InvalidInput
      else if digit > (maxInt - i) div w then error Overflow
      else
        (let i' = i + digit * w;
             t = threshold k bias
         in if digit < t then Inr (i', cs)
            else
              (let baseMinusT = base - t in
               if w > maxInt div baseMinusT then error Overflow
               else decodeDigits cs i' (w * baseMinusT) (k + base) bias)))"

lemma decodeDigits_shorter:
  "decodeDigits s i w k bias = Inr (i', rest) \<Longrightarrow> length rest < length s"
proof (induction s arbitrary: i w k)
  case Nil
  then show ?case by (simp add: error_def)
next
  case (Cons c cs)
  show ?case
  proof (cases "basicToDigit (uint c) < threshold k bias")
    case True
    with Cons.prems show ?thesis
      by (auto simp: error_def Let_def split: if_splits)
  next
    case False
    with Cons.prems have
      "decodeDigits cs (i + basicToDigit (uint c) * w) (w * (base - threshold k bias))
         (k + base) bias = Inr (i', rest)"
      by (auto simp: error_def Let_def split: if_splits)
    from Cons.IH [OF this] show ?thesis by simp
  qed
qed

text \<open>\<open>output.splice(i, 0, n)\<close>.\<close>

definition splice :: "int list \<Rightarrow> int \<Rightarrow> int \<Rightarrow> int list" where
  "splice output i n = take (nat i) output @ n # drop (nat i) output"

text \<open>The main decoding loop, over the units left, with the state \<open>i\<close>, \<open>n\<close>,
  \<open>bias\<close>, \<open>output\<close>.\<close>

function decodeLoop :: "jsstring \<Rightarrow> int \<Rightarrow> int \<Rightarrow> int \<Rightarrow> int list \<Rightarrow> exn + int list" where
  "decodeLoop [] i n bias output = Inr output"
| "decodeLoop (c # cs) i n bias output =
     (case decodeDigits (c # cs) i 1 base bias of
        Inl e \<Rightarrow> Inl e
      | Inr (i', rest) \<Rightarrow>
          (let out = int (length output) + 1;
               bias' = adapt (i' - i) out (i = 0)
           in if i' div out > maxInt - n then error Overflow
              else
                (let n' = n + i' div out;
                     i'' = jsRem i' out
                 in decodeLoop rest (i'' + 1) n' bias' (splice output i'' n'))))"
  by pat_completeness auto
termination
  by (relation "measure (\<lambda>(s, i, n, bias, output). length s)")
     (auto simp del: decodeDigits.simps dest: decodeDigits_shorter)

text \<open>\<open>decode\<close> up to its last statement: the array of code points \<open>output\<close>.\<close>

definition decodePoints :: "jsstring \<Rightarrow> exn + int list" where
  "decodePoints input =
     (let basic0 = lastIndexOf input delimiter;
          basic = (if basic0 < 0 then 0 else basic0)
      in case copyBasic (take (nat basic) input) [] of
           Inl e \<Rightarrow> Inl e
         | Inr output \<Rightarrow>
             decodeLoop (drop (nat (if basic > 0 then basic + 1 else 0)) input)
               0 initialN initialBias output)"

text \<open>The last statement, \<open>return String.fromCodePoint(...output)\<close>, where the engine
  takes the whole array as the arguments of the call.\<close>

definition decode :: "jsstring \<Rightarrow> exn + jsstring" where
  "decode input =
     (case decodePoints input of
        Inl e \<Rightarrow> Inl e
      | Inr output \<Rightarrow> fromCodePoint output)"

text \<open>
  The last statement spreads the array into the arguments of a call, and an engine takes
  only so many: with more, the call throws before the built-in runs. How many arguments
  fit depends on the engine and on the stack left at the call, so the number is a
  parameter: \<open>decodeOn maxArgs\<close> is \<open>decode\<close> where a call takes at most \<open>maxArgs\<close>
  arguments.
\<close>

definition decodeOn :: "nat \<Rightarrow> jsstring \<Rightarrow> exn + jsstring" where
  "decodeOn maxArgs input =
     (case decodePoints input of
        Inl e \<Rightarrow> Inl e
      | Inr output \<Rightarrow>
          if length output > maxArgs then Inl StackSizeExceeded else fromCodePoint output)"

section \<open>encode\<close>

text \<open>\<open>String.fromCharCode(x)\<close> keeps the low 16 bits.\<close>

definition stringFromCharCode :: "int \<Rightarrow> 16 word" where
  "stringFromCharCode x = word_of_int x"

text \<open>The loop that writes \<open>delta\<close> as a generalized variable-length integer, the
  last digit included.\<close>

function encodeDigits :: "int \<Rightarrow> int \<Rightarrow> int \<Rightarrow> jsstring" where
  "encodeDigits q k bias =
     (let t = threshold k bias in
      if q < t then [stringFromCharCode (digitToBasic q 0)]
      else
        (let qMinusT = q - t;
             baseMinusT = base - t
         in stringFromCharCode (digitToBasic (t + jsRem qMinusT baseMinusT) 0)
            # encodeDigits (qMinusT div baseMinusT) (k + base) bias))"
  by pat_completeness auto
termination
proof (relation "measure (\<lambda>(q, k, bias). nat q)", goal_cases)
  case 1
  show ?case by simp
next
  case (2 q k bias t qMinusT baseMinusT)
  have t: "1 \<le> t" "t \<le> 26"
    using 2(1) by (auto simp: threshold_def params)
  have "(q - t) div (36 - t) \<le> q - t"
    using t 2(2) zdiv_mono2 [of "q - t" 1 "36 - t"] by simp
  with t 2 show ?case by (simp add: params)
qed

text \<open>The search for the next code point to handle: \<open>m\<close> starts at \<open>maxInt\<close>
  and ends at the smallest code point \<open>\<ge> n\<close> below it, if there is one.\<close>

fun nextM :: "int list \<Rightarrow> int \<Rightarrow> int \<Rightarrow> int" where
  "nextM [] n m = m"
| "nextM (currentValue # rest) n m =
     nextM rest n (if currentValue \<ge> n \<and> currentValue < m then currentValue else m)"

text \<open>
  One pass of the inner \<open>for\<close> loop over the code points left, with the state
  \<open>delta\<close>, \<open>bias\<close>, \<open>handledCPCount\<close>, \<open>output\<close>. \<open>handledCPCountPlusOne\<close> is
  computed before the pass and does not follow \<open>handledCPCount\<close>.
\<close>

fun encodePass :: "int list \<Rightarrow> int \<Rightarrow> int \<Rightarrow> int \<Rightarrow> int \<times> int \<times> int \<times> jsstring
    \<Rightarrow> exn + (int \<times> int \<times> int \<times> jsstring)" where
  "encodePass [] n handledCPCountPlusOne basicLength st = Inr st"
| "encodePass (currentValue # rest) n handledCPCountPlusOne basicLength
      (delta, bias, handledCPCount, output) =
     (let delta1 = (if currentValue < n then delta + 1 else delta) in
      if currentValue < n \<and> delta1 > maxInt then error Overflow
      else if currentValue = n then
        encodePass rest n handledCPCountPlusOne basicLength
          (0, adapt delta1 handledCPCountPlusOne (handledCPCount = basicLength),
           handledCPCount + 1, output @ encodeDigits delta1 base bias)
      else encodePass rest n handledCPCountPlusOne basicLength
             (delta1, bias, handledCPCount, output))"

text \<open>The main encoding loop. Nothing in its text bounds the number of passes, so
  not returning is the value \<open>None\<close>.\<close>

partial_function (option) encodeLoop ::
    "int list \<Rightarrow> int \<Rightarrow> int \<Rightarrow> int \<Rightarrow> int \<Rightarrow> int \<Rightarrow> jsstring \<Rightarrow> (exn + jsstring) option" where
  "encodeLoop inputArray basicLength n delta bias handledCPCount output =
     (if handledCPCount < int (length inputArray) then
        (let m = nextM inputArray n maxInt;
             handledCPCountPlusOne = handledCPCount + 1
         in if m - n > (maxInt - delta) div handledCPCountPlusOne then Some (error Overflow)
            else
              (case encodePass inputArray m handledCPCountPlusOne basicLength
                      (delta + (m - n) * handledCPCountPlusOne, bias, handledCPCount, output) of
                 Inl e \<Rightarrow> Some (Inl e)
               | Inr (delta', bias', handledCPCount', output') \<Rightarrow>
                   encodeLoop inputArray basicLength (m + 1) (delta' + 1) bias'
                     handledCPCount' output'))
      else Some (Inr output))"

declare encodeLoop.simps [code]
declare encodeDigits.simps [simp del]
declare adaptLoop.simps [simp del]

definition encode :: "jsstring \<Rightarrow> (exn + jsstring) option" where
  "encode input =
     (let inputArray = ucs2decode input;
          output = map stringFromCharCode (filter (\<lambda>currentValue. currentValue < 0x80) inputArray);
          basicLength = int (length output)
      in encodeLoop inputArray basicLength initialN 0 initialBias basicLength
           (if basicLength \<noteq> 0 then output @ [delimiter] else output))"

section \<open>Domain names and email addresses\<close>

text \<open>
  The utility \<open>map\<close> calls the callback from the last item to the first, so of
  several failing items the last one decides the exception. A callback that does not
  return is the value \<open>None\<close>.
\<close>

fun map_cb :: "('a \<Rightarrow> (exn + 'b) option) \<Rightarrow> 'a list \<Rightarrow> (exn + 'b list) option" where
  "map_cb callback [] = Some (Inr [])"
| "map_cb callback (x # xs) =
     (case map_cb callback xs of
        None \<Rightarrow> None
      | Some (Inl e) \<Rightarrow> Some (Inl e)
      | Some (Inr ys) \<Rightarrow>
          (case callback x of
             None \<Rightarrow> None
           | Some (Inl e) \<Rightarrow> Some (Inl e)
           | Some (Inr y) \<Rightarrow> Some (Inr (y # ys))))"

definition mapDomain :: "jsstring \<Rightarrow> (jsstring \<Rightarrow> (exn + jsstring) option)
    \<Rightarrow> (exn + jsstring) option" where
  "mapDomain domain callback =
     (let parts = split 0x40 domain;
          result = (if length parts > 1 then parts ! 0 @ [0x40] else []);
          domain1 = (if length parts > 1 then parts ! 1 else domain);
          domain2 = replaceSeparators domain1;
          labels = split 0x2E domain2
      in case map_cb callback labels of
           None \<Rightarrow> None
         | Some (Inl e) \<Rightarrow> Some (Inl e)
         | Some (Inr encoded) \<Rightarrow> Some (Inr (result @ join 0x2E encoded)))"

text \<open>
  \<open>toUnicode\<close>. The built-in \<open>toLowerCase\<close> follows the Unicode case tables, which
  are no part of this program: it is a parameter.
\<close>

definition toUnicode :: "(jsstring \<Rightarrow> jsstring) \<Rightarrow> jsstring \<Rightarrow> (exn + jsstring) option" where
  "toUnicode toLowerCase input =
     mapDomain input (\<lambda>string.
       if regexPunycode string then Some (decode (toLowerCase (drop 4 string)))
       else Some (Inr string))"

definition toASCII :: "jsstring \<Rightarrow> (exn + jsstring) option" where
  "toASCII input =
     mapDomain input (\<lambda>string.
       if regexNonASCII string then
         (case encode string of
            None \<Rightarrow> None
          | Some (Inl e) \<Rightarrow> Some (Inl e)
          | Some (Inr encoded) \<Rightarrow> Some (Inr (xn_prefix @ encoded)))
       else Some (Inr string))"

text \<open>On units below \<open>0x80\<close>, \<open>toLowerCase\<close> maps \<open>A-Z\<close> to \<open>a-z\<close> and keeps every
  other unit.\<close>

definition asciiLowerCase :: "jsstring \<Rightarrow> jsstring" where
  "asciiLowerCase s = map (\<lambda>c. if 0x41 \<le> uint c \<and> uint c \<le> 0x5A then c + 0x20 else c) s"

section \<open>Notions used in the statements\<close>

text \<open>A call after a call: the second one runs on what the first one returned.\<close>

definition andThen :: "(exn + 'a) option \<Rightarrow> ('a \<Rightarrow> (exn + 'b) option) \<Rightarrow> (exn + 'b) option" where
  "andThen r f =
     (case r of None \<Rightarrow> None | Some (Inl e) \<Rightarrow> Some (Inl e) | Some (Inr x) \<Rightarrow> f x)"

text \<open>A returned string with \<open>p\<close> put in front.\<close>

definition prefixed :: "jsstring \<Rightarrow> (exn + jsstring) option \<Rightarrow> (exn + jsstring) option" where
  "prefixed p r =
     (case r of None \<Rightarrow> None | Some (Inl e) \<Rightarrow> Some (Inl e) | Some (Inr s) \<Rightarrow> Some (Inr (p @ s)))"

text \<open>The returned labels joined with \<open>'.'\<close>.\<close>

definition joined :: "(exn + jsstring list) option \<Rightarrow> (exn + jsstring) option" where
  "joined r =
     (case r of None \<Rightarrow> None | Some (Inl e) \<Rightarrow> Some (Inl e)
      | Some (Inr ls) \<Rightarrow> Some (Inr (join 0x2E ls)))"

text \<open>The labels \<open>mapDomain\<close> hands to its callback.\<close>

definition domainLabels :: "jsstring \<Rightarrow> jsstring list" where
  "domainLabels input =
     (let parts = split 0x40 input
      in split 0x2E (replaceSeparators (if length parts > 1 then parts ! 1 else input)))"

text \<open>The units \<open>encode\<close> writes for digits: \<open>a-z\<close> and \<open>0-9\<close>.\<close>

definition digitUnit :: "16 word \<Rightarrow> bool" where
  "digitUnit c = (0x61 \<le> uint c \<and> uint c \<le> 0x7A \<or> 0x30 \<le> uint c \<and> uint c \<le> 0x39)"

text \<open>How many code points of the array are below \<open>n\<close>, and how many are \<open>n\<close>.\<close>

definition cntLt :: "int list \<Rightarrow> int \<Rightarrow> int" where
  "cntLt arr n = int (length (filter (\<lambda>c. c < n) arr))"

definition cntEq :: "int list \<Rightarrow> int \<Rightarrow> int" where
  "cntEq arr n = int (length (filter (\<lambda>c. c = n) arr))"

text \<open>What \<open>mapDomain\<close> puts in front of the processed labels: the text up to the first
  \<open>'@'\<close>, that sign included, when there is one.\<close>

definition localPart :: "jsstring \<Rightarrow> jsstring" where
  "localPart input =
     (let parts = split 0x40 input in if length parts > 1 then parts ! 0 @ [0x40] else [])"

text \<open>A unit that ends no local part and no label.\<close>

definition cleanUnit :: "16 word \<Rightarrow> bool" where
  "cleanUnit c = (c \<noteq> 0x40 \<and> \<not> regexSeparators c)"

text \<open>A string is well formed when every surrogate is half of a pair: a high surrogate
  is followed by a low one, and a low one follows a high one.\<close>

definition highSurrogate :: "16 word \<Rightarrow> bool" where
  "highSurrogate v = (0xD800 \<le> uint v \<and> uint v \<le> 0xDBFF)"

definition lowSurrogate :: "16 word \<Rightarrow> bool" where
  "lowSurrogate v = (0xDC00 \<le> uint v \<and> uint v \<le> 0xDFFF)"

fun wellFormed :: "jsstring \<Rightarrow> bool" where
  "wellFormed [] = True"
| "wellFormed [v] = (\<not> highSurrogate v \<and> \<not> lowSurrogate v)"
| "wellFormed (v # e # rest) =
     (if highSurrogate v then lowSurrogate e \<and> wellFormed rest
      else \<not> lowSurrogate v \<and> wellFormed (e # rest))"

text \<open>While \<open>decode\<close> reads the digits of one integer, the weight \<open>w\<close> is at most
  \<open>35 ^ j\<close> at the digit of index \<open>j\<close>, where \<open>k = 36 * (j + 1)\<close>.\<close>

definition wkInv :: "int \<Rightarrow> int \<Rightarrow> bool" where
  "wkInv w k = (0 < w \<and> (\<exists>j. k = 36 * (int j + 1) \<and> w \<le> 35 ^ j))"

text \<open>The encoder and the decoder in lock step. In the pass for the code point \<open>n\<close>,
  \<open>pre\<close> is the part of the input the pass has walked over and \<open>suf\<close> the rest; the decoder
  has built \<open>handled n pre suf\<close>, and its state \<open>(i, nd)\<close> is \<open>delta\<close> insertion steps behind
  the position the encoder will emit next.\<close>

definition cntLe :: "int list \<Rightarrow> int \<Rightarrow> int" where
  "cntLe arr n = int (length (filter (\<lambda>c. c \<le> n) arr))"

definition handled :: "int \<Rightarrow> int list \<Rightarrow> int list \<Rightarrow> int list" where
  "handled n pre suf = filter (\<lambda>c. c \<le> n) pre @ filter (\<lambda>c. c < n) suf"

definition simInv ::
  "int list \<Rightarrow> int \<Rightarrow> int \<Rightarrow> int list \<Rightarrow> int list \<Rightarrow> int \<Rightarrow> int \<Rightarrow> int \<Rightarrow> int \<Rightarrow> bool" where
  "simInv arr bl n pre suf delta h i nd =
     (arr = pre @ suf \<and> n \<in> set arr
      \<and> h = cntLe pre n + cntLt suf n
      \<and> delta = (n - nd) * (h + 1) + cntLe pre n - i
      \<and> 128 \<le> nd \<and> nd \<le> n \<and> 0 \<le> i \<and> i \<le> h
      \<and> (nd = n \<longrightarrow> i \<le> cntLe pre n)
      \<and> (i = 0 \<and> h = bl \<or> 0 < i \<and> bl < h)
      \<and> (cntEq pre n = 0 \<or> nd = n \<and> cntLe pre n - i \<le> cntLt pre n))"

text \<open>The same between two passes.\<close>

definition headInv :: "int list \<Rightarrow> int \<Rightarrow> int \<Rightarrow> int \<Rightarrow> int \<Rightarrow> int \<Rightarrow> int \<Rightarrow> bool" where
  "headInv arr bl n delta h i nd =
     (h = cntLt arr n \<and> delta = (n - nd) * (h + 1) - i
      \<and> 128 \<le> nd \<and> nd \<le> n \<and> 0 \<le> i \<and> i \<le> h \<and> (nd = n \<longrightarrow> i = 0)
      \<and> (i = 0 \<and> h = bl \<or> 0 < i \<and> bl < h))"




section \<open>Splitting and joining\<close>

lemma split_not_Nil [simp]: "split c s \<noteq> []"
  by (induction s) (auto split: list.splits)

lemma split_no_sep: "c \<notin> set s \<Longrightarrow> split c s = [s]"
  by (induction s) auto

lemma split_append_sep: "c \<notin> set a \<Longrightarrow> split c (a @ c # rest) = a # split c rest"
  by (induction a) auto

lemma join_split [simp]: "join c (split c s) = s"
proof (induction s)
  case Nil
  show ?case by simp
next
  case (Cons x xs)
  obtain p ps where ps: "split c xs = p # ps"
    by (cases "split c xs") auto
  with Cons show ?case by (cases ps) auto
qed

lemma split_join:
  "ls \<noteq> [] \<Longrightarrow> \<forall>l\<in>set ls. c \<notin> set l \<Longrightarrow> split c (join c ls) = ls"
proof (induction ls rule: join.induct[of _ c])
  case (3 p q ps)
  then show ?case by (simp add: split_append_sep)
qed (auto simp: split_no_sep)

lemma split_pieces: "p \<in> set (split c s) \<Longrightarrow> c \<notin> set p \<and> set p \<subseteq> set s"
proof (induction s arbitrary: p)
  case Nil
  then show ?case by simp
next
  case (Cons x xs)
  obtain q qs where qs: "split c xs = q # qs"
    by (cases "split c xs") auto
  show ?case
  proof (cases "x = c")
    case True
    with Cons show ?thesis by auto
  next
    case False
    with Cons.prems qs have "p = x # q \<or> p \<in> set qs" by auto
    then show ?thesis
    proof
      assume p: "p = x # q"
      have "c \<notin> set q \<and> set q \<subseteq> set xs"
        using Cons.IH [of q] qs by simp
      with p False show ?thesis by auto
    next
      assume "p \<in> set qs"
      then have "c \<notin> set p \<and> set p \<subseteq> set xs"
        using Cons.IH [of p] qs by simp
      then show ?thesis by auto
    qed
  qed
qed

lemma length_split: "length (split c s) = Suc (count_list s c)"
proof (induction s)
  case (Cons x xs)
  obtain q qs where qs: "split c xs = q # qs"
    by (cases "split c xs") auto
  with Cons show ?case by auto
qed simp

lemma mapDomain_labels:
  "mapDomain domain callback =
     prefixed (if length (split 0x40 domain) > 1 then split 0x40 domain ! 0 @ [0x40] else [])
       (joined (map_cb callback (domainLabels domain)))"
  by (simp add: mapDomain_def prefixed_def joined_def domainLabels_def Let_def
      split: option.splits sum.splits)

lemma domainLabels_two_ats:
  assumes "0x40 \<notin> set a" "0x40 \<notin> set b"
  shows "domainLabels (a @ 0x40 # b @ 0x40 # rest) = split 0x2E (replaceSeparators b)"
    and "domainLabels b = split 0x2E (replaceSeparators b)"
    and "Suc 0 < length (split 0x40 (a @ 0x40 # b @ 0x40 # rest))"
    and "split 0x40 (a @ 0x40 # b @ 0x40 # rest) ! 0 = a"
  using assms by (simp_all add: domainLabels_def split_append_sep split_no_sep Let_def)

lemma map_cb_unchanged:
  "\<forall>l\<in>set ls. callback l = Some (Inr l) \<Longrightarrow> map_cb callback ls = Some (Inr ls)"
  by (induction ls) auto

lemma replaceSeparators_id:
  "\<forall>c\<in>set s. regexSeparators c \<longrightarrow> c = 0x2E \<Longrightarrow> replaceSeparators s = s"
  by (induction s) (auto simp: replaceSeparators_def)

lemma ascii_separator:
  "uint c < 0x80 \<Longrightarrow> regexSeparators c \<Longrightarrow> c = 0x2E"
  by (auto simp: regexSeparators_def)

lemma set_join: "set (join c ls) \<subseteq> insert c (\<Union>(set ` set ls))"
  by (induction ls rule: join.induct[of _ c]) auto

lemma split_at_most_one:
  assumes "count_list s c \<le> 1"
  shows "split c s = [s] \<and> c \<notin> set s
       \<or> (\<exists>a b. s = a @ c # b \<and> c \<notin> set a \<and> c \<notin> set b \<and> split c s = [a, b])"
proof (cases "c \<in> set s")
  case False
  then show ?thesis by (simp add: split_no_sep)
next
  case True
  then obtain a b where ab: "s = a @ c # b" "c \<notin> set a"
    by (auto dest: split_list_first)
  with assms have "count_list b c = 0" by simp
  then have "c \<notin> set b" by (simp add: count_list_0_iff)
  with ab show ?thesis by (auto simp: split_append_sep split_no_sep)
qed

section \<open>The basic prefix and the delimiter (claims C8 and C9)\<close>

text \<open>
  Claim C8, as amended: \<open>decode("xyz-")\<close> does not fail; the units before the last
  delimiter are basic code points, nothing follows the delimiter, and the call returns
  \<open>"xyz"\<close>.
\<close>

theorem decode_xyz_delimiter:
  "decode [0x78, 0x79, 0x7A, 0x2D] = Inr [0x78, 0x79, 0x7A]"
  by code_simp

text \<open>The claim as stated, \<open>InvalidInput\<close> for \<open>"xyz-"\<close>, is false.\<close>

theorem decode_xyz_delimiter_not_invalid:
  "decode [0x78, 0x79, 0x7A, 0x2D] \<noteq> error InvalidInput"
  by code_simp

text \<open>
  Claim C9, as amended: \<open>decode("\x81")\<close> fails with \<open>InvalidInput\<close>. There is no
  delimiter, so the unit \<open>0x81\<close> is read as a digit; \<open>basicToDigit\<close> gives \<open>base\<close>
  for it and the check \<open>digit >= base\<close> comes before the overflow check.
\<close>

theorem decode_x81_invalid_input:
  "decode [0x81] = error InvalidInput"
  by code_simp

text \<open>The claim as stated, \<open>Overflow\<close> for \<open>"\x81"\<close>, is false.\<close>

theorem decode_x81_not_overflow:
  "decode [0x81] \<noteq> error Overflow"
  by code_simp

section \<open>Email addresses (claims C5 and C10)\<close>

text \<open>
  Claim C5 says that everything after the first \<open>'@'\<close> is processed. The code splits
  at every \<open>'@'\<close> and goes on with the second part only: for \<open>"a@b@c"\<close> the result
  is \<open>"a@b"\<close>, and \<open>"@c"\<close> is lost.
\<close>

theorem toASCII_second_at_lost:
  "toASCII [0x61, 0x40, 0x62, 0x40, 0x63] = Some (Inr [0x61, 0x40, 0x62])"
  by code_simp

text \<open>
  Claim C10: for an input with two or more \<open>'@'\<close>, that is \<open>a @ b @ rest\<close> with no
  \<open>'@'\<close> in \<open>a\<close> and \<open>b\<close>, \<open>mapDomain\<close> returns \<open>a\<close>, then \<open>'@'\<close>, then the labels
  of \<open>b\<close> after the callback, joined; \<open>rest\<close> has no part in the result. So
  \<open>toASCII\<close> and \<open>toUnicode\<close> return \<open>a\<close>, \<open>'@'\<close> and what they return for \<open>b\<close>.
\<close>

theorem mapDomain_two_ats:
  assumes "0x40 \<notin> set a" and "0x40 \<notin> set b"
  shows "mapDomain (a @ 0x40 # b @ 0x40 # rest) callback
           = prefixed (a @ [0x40]) (joined (map_cb callback (split 0x2E (replaceSeparators b))))
         \<and> toASCII (a @ 0x40 # b @ 0x40 # rest) = prefixed (a @ [0x40]) (toASCII b)
         \<and> toUnicode toLowerCase (a @ 0x40 # b @ 0x40 # rest)
             = prefixed (a @ [0x40]) (toUnicode toLowerCase b)"
proof -
  have b: "length (split 0x40 b) = 1"
    using assms(2) by (simp add: split_no_sep)
  have *: "mapDomain (a @ 0x40 # b @ 0x40 # rest) cb
           = prefixed (a @ [0x40]) (joined (map_cb cb (split 0x2E (replaceSeparators b))))"
       "mapDomain b cb = joined (map_cb cb (split 0x2E (replaceSeparators b)))" for cb
    using b by (simp_all add: mapDomain_labels domainLabels_two_ats [OF assms] prefixed_def
        split: option.splits sum.splits)
  show ?thesis
    by (simp add: * toASCII_def toUnicode_def)
qed

theorem mapDomain_two_ats_witness:
  "0x40 \<notin> set [0x61 :: 16 word] \<and> 0x40 \<notin> set [0xFC :: 16 word]
   \<and> toASCII [0x61, 0x40, 0xFC, 0x40, 0x63] = Some (Inr [0x61, 0x40, 0x78, 0x6E, 0x2D, 0x2D, 0x74, 0x64, 0x61])"
proof -
  have a: "0x40 \<notin> set [0x61 :: 16 word]" and b: "0x40 \<notin> set [0xFC :: 16 word]"
    by simp_all
  have "toASCII [0xFC] = Some (Inr [0x78, 0x6E, 0x2D, 0x2D, 0x74, 0x64, 0x61])"
    by code_simp
  with mapDomain_two_ats [OF a b, of "[0x63]"] a b show ?thesis
    by (simp add: prefixed_def)
qed

section \<open>The prefix of an encoded label (claim C3)\<close>

lemma domainLabels_join:
  assumes "labels \<noteq> []"
    and "\<forall>l\<in>set labels. \<forall>c\<in>set l. c \<noteq> 0x40 \<and> \<not> regexSeparators c"
  shows "domainLabels (join 0x2E labels) = labels" and "localPart (join 0x2E labels) = []"
proof -
  let ?d = "join 0x2E labels"
  have chars: "\<forall>c\<in>set ?d. c \<noteq> 0x40 \<and> (regexSeparators c \<longrightarrow> c = 0x2E)"
  proof
    fix c assume "c \<in> set ?d"
    then have "c = 0x2E \<or> (\<exists>l\<in>set labels. c \<in> set l)"
      using set_join [where c = "0x2E" and ls = labels] by auto
    then show "c \<noteq> 0x40 \<and> (regexSeparators c \<longrightarrow> c = 0x2E)"
      using assms(2) by auto
  qed
  then have "0x40 \<notin> set ?d" by auto
  then have parts: "split 0x40 ?d = [?d]" by (rule split_no_sep)
  have norm: "replaceSeparators ?d = ?d"
    using chars by (intro replaceSeparators_id) auto
  have "\<forall>l\<in>set labels. 0x2E \<notin> set l"
    using assms(2) by (auto simp: regexSeparators_def)
  then have "split 0x2E ?d = labels"
    using assms(1) by (intro split_join) auto
  then show "domainLabels ?d = labels"
    by (simp add: domainLabels_def parts norm)
  show "localPart ?d = []"
    by (simp add: localPart_def parts)
qed




section \<open>ASCII input (claim C6)\<close>

text \<open>
  Claim C6, as amended: for an input of units below \<open>0x80\<close> with at most one \<open>'@'\<close>,
  \<open>toASCII\<close> returns the input; \<open>toUnicode\<close> returns it when no label handed to the
  callback starts with \<open>xn--\<close>.
\<close>

theorem ascii_unchanged:
  assumes "\<forall>c\<in>set input. uint c < 0x80" and "count_list input 0x40 \<le> 1"
  shows "toASCII input = Some (Inr input)
       \<and> ((\<forall>l\<in>set (domainLabels input). \<not> regexPunycode l)
            \<longrightarrow> toUnicode toLowerCase input = Some (Inr input))"
proof -
  define dom where "dom = (if length (split 0x40 input) > 1 then split 0x40 input ! 1 else input)"
  define pre where "pre = (if length (split 0x40 input) > 1 then split 0x40 input ! 0 @ [0x40] else [])"
  have whole: "pre @ dom = input" and sub: "set dom \<subseteq> set input"
    using split_at_most_one [OF assms(2)] by (auto simp: dom_def pre_def)
  have norm: "replaceSeparators dom = dom"
    using sub assms(1) by (intro replaceSeparators_id) (auto dest: ascii_separator)
  have labels: "domainLabels input = split 0x2E dom"
    using norm by (simp add: domainLabels_def dom_def Let_def split: if_splits)
  have md: "mapDomain input cb = prefixed pre (joined (map_cb cb (split 0x2E dom)))" for cb
    by (simp add: mapDomain_labels labels pre_def)
  have ascii: "\<forall>l\<in>set (split 0x2E dom). \<not> regexNonASCII l"
  proof
    fix l assume "l \<in> set (split 0x2E dom)"
    then have "set l \<subseteq> set input" using split_pieces [where p = l and c = "0x2E" and s = dom] sub by auto
    with assms(1) show "\<not> regexNonASCII l"
      by (fastforce simp: regexNonASCII_def list_ex_iff)
  qed
  have 1: "toASCII input = Some (Inr input)"
    unfolding toASCII_def md
    by (subst map_cb_unchanged) (use ascii in \<open>auto simp: joined_def prefixed_def whole\<close>)
  have 2: "toUnicode toLowerCase input = Some (Inr input)"
    if "\<forall>l\<in>set (domainLabels input). \<not> regexPunycode l"
    unfolding toUnicode_def md
    by (subst map_cb_unchanged) (use that labels in \<open>auto simp: joined_def prefixed_def whole\<close>)
  from 1 2 show ?thesis by blast
qed

theorem ascii_unchanged_witness:
  "count_list [0x75, 0x40, 0x61, 0x2E, 0x62 :: 16 word] 0x40 \<le> 1
   \<and> toASCII [0x75, 0x40, 0x61, 0x2E, 0x62] = Some (Inr [0x75, 0x40, 0x61, 0x2E, 0x62])
   \<and> toUnicode asciiLowerCase [0x75, 0x40, 0x61, 0x2E, 0x62] = Some (Inr [0x75, 0x40, 0x61, 0x2E, 0x62])"
proof -
  let ?input = "[0x75, 0x40, 0x61, 0x2E, 0x62] :: jsstring"
  have 1: "\<forall>c\<in>set ?input. uint c < 0x80" by simp
  have 2: "count_list ?input 0x40 \<le> 1" by simp
  have 3: "\<forall>l\<in>set (domainLabels ?input). \<not> regexPunycode l"
    by (simp add: domainLabels_def replaceSeparators_def regexSeparators_def regexPunycode_def
        xn_prefix_def)
  from ascii_unchanged [OF 1 2, of asciiLowerCase] 1 2 3 show ?thesis by blast
qed

text \<open>The claim as stated fails for \<open>toUnicode\<close>: \<open>"xn--tda"\<close> is ASCII and is
  decoded to \<open>"\xFC"\<close>.\<close>

theorem toUnicode_ascii_changed:
  "toUnicode asciiLowerCase [0x78, 0x6E, 0x2D, 0x2D, 0x74, 0x64, 0x61] = Some (Inr [0xFC])"
  by code_simp

section \<open>Arithmetic of the digits\<close>

lemma threshold_bounds: "1 \<le> threshold k bias" "threshold k bias \<le> 26"
  by (auto simp: threshold_def params)

lemma sar32_half: "0 \<le> x \<Longrightarrow> x < 2 ^ 31 \<Longrightarrow> sar32 x 1 = x div 2"
  by (simp add: sar32_def toInt32_def)

lemma sar32_threshold [simp]: "sar32 (baseMinusTMin * tMax) 1 = 455"
  by (simp add: sar32_def toInt32_def params)

lemma digitToBasic_lower: "digitToBasic d 0 = d + 22 + 75 * (if d < 26 then 1 else 0)"
  by (simp add: digitToBasic_def shl32_def toInt32_def)

lemma jsRem_nonneg: "0 \<le> a \<Longrightarrow> 0 < b \<Longrightarrow> jsRem a b = a mod b"
  by (cases "a = 0") (auto simp: jsRem_def)

lemma uint_stringFromCharCode:
  "0 \<le> x \<Longrightarrow> x < 65536 \<Longrightarrow> uint (stringFromCharCode x) = x"
  by (simp add: stringFromCharCode_def uint_word_of_int take_bit_eq_mod)

lemma uint_digitToBasic:
  "0 \<le> d \<Longrightarrow> d < 36 \<Longrightarrow>
   uint (stringFromCharCode (digitToBasic d 0)) = (if d < 26 then d + 97 else d + 22)"
  by (subst uint_stringFromCharCode) (auto simp: digitToBasic_lower)

lemma digitUnit_digitToBasic:
  "0 \<le> d \<Longrightarrow> d < 36 \<Longrightarrow> digitUnit (stringFromCharCode (digitToBasic d 0))"
  by (simp add: digitUnit_def uint_digitToBasic)

lemma basicToDigit_digitToBasic:
  "0 \<le> d \<Longrightarrow> d < 36 \<Longrightarrow> basicToDigit (uint (stringFromCharCode (digitToBasic d 0))) = d"
  by (simp add: uint_digitToBasic basicToDigit_def params)

lemma encodeDigits_units:
  "0 \<le> q \<Longrightarrow> \<forall>c\<in>set (encodeDigits q k bias). digitUnit c"
proof (induction q k bias rule: encodeDigits.induct)
  case (1 q k bias)
  let ?t = "threshold k bias"
  note t = threshold_bounds [of k bias]
  show ?case
  proof (cases "q < ?t")
    case True
    with 1(2) t show ?thesis
      by (subst encodeDigits.simps) (simp add: digitUnit_digitToBasic)
  next
    case False
    have b: "0 < 36 - ?t" using t by simp
    have d: "0 \<le> ?t + (q - ?t) mod (36 - ?t)" "?t + (q - ?t) mod (36 - ?t) < 36"
      using t pos_mod_bound [OF b, of "q - ?t"] pos_mod_sign [OF b, of "q - ?t"]
      by linarith+
    have "0 \<le> (q - ?t) div (36 - ?t)"
      using t False by (simp add: pos_imp_zdiv_nonneg_iff)
    then have "\<forall>c\<in>set (encodeDigits ((q - ?t) div (base - ?t)) (k + base) bias). digitUnit c"
      using 1(1) [OF refl False refl refl] by (simp add: params)
    with d False t show ?thesis
      by (subst encodeDigits.simps)
         (simp add: Let_def digitUnit_digitToBasic jsRem_nonneg params)
  qed
qed

section \<open>What decode returns or throws\<close>

lemma basicToDigit_nonneg: "0 \<le> c \<Longrightarrow> 0 \<le> basicToDigit c"
  by (auto simp: basicToDigit_def params)

lemma error_cases: "(error t :: exn + 'a) = error Overflow \<or> (error t :: exn + 'a) = error NotBasic
    \<or> (error t :: exn + 'a) = error InvalidInput"
  by (cases t) auto

lemma error_neq_Inr [simp]: "error t \<noteq> Inr x" "Inr x \<noteq> error t"
  by (auto simp: error_def)

lemma decodeDigits_Cons:
  "decodeDigits (c # cs) i w k bias =
     (if basicToDigit (uint c) \<ge> base then error InvalidInput
      else if basicToDigit (uint c) > (maxInt - i) div w then error Overflow
      else if basicToDigit (uint c) < threshold k bias then Inr (i + basicToDigit (uint c) * w, cs)
      else if w > maxInt div (base - threshold k bias) then error Overflow
      else decodeDigits cs (i + basicToDigit (uint c) * w) (w * (base - threshold k bias))
             (k + base) bias)"
  by (simp add: Let_def)

declare decodeDigits.simps(2) [simp del]

lemma decodeLoop_throw:
  "s \<noteq> [] \<Longrightarrow> decodeDigits s i 1 base bias = Inl e \<Longrightarrow> decodeLoop s i n bias out = Inl e"
  by (cases s) simp_all

lemma decodeLoop_step:
  "s \<noteq> [] \<Longrightarrow> decodeDigits s i 1 base bias = Inr (i', rest) \<Longrightarrow>
   decodeLoop s i n bias out =
     (if i' div (int (length out) + 1) > maxInt - n then error Overflow
      else decodeLoop rest (jsRem i' (int (length out) + 1) + 1) (n + i' div (int (length out) + 1))
             (adapt (i' - i) (int (length out) + 1) (i = 0))
             (splice out (jsRem i' (int (length out) + 1)) (n + i' div (int (length out) + 1))))"
  by (cases s) (simp_all add: Let_def)

declare decodeLoop.simps(2) [simp del]

lemma decodeDigits_result:
  assumes "0 < w" "0 \<le> i"
  shows "decodeDigits s i w k bias = error Overflow \<or> decodeDigits s i w k bias = error InvalidInput
       \<or> (\<exists>i' rest. decodeDigits s i w k bias = Inr (i', rest) \<and> i \<le> i')"
  using assms
proof (induction s arbitrary: i w k)
  case Nil
  then show ?case by simp
next
  case (Cons c cs)
  let ?d = "basicToDigit (uint c)"
  let ?t = "threshold k bias"
  note t = threshold_bounds [of k bias]
  have d: "0 \<le> ?d" by (simp add: basicToDigit_nonneg)
  then have dw: "0 \<le> ?d * w" using Cons.prems by simp
  have w': "0 < w * (base - ?t)" using t Cons.prems by (simp add: params)
  have i': "0 \<le> i + ?d * w" using dw Cons.prems by simp
  consider "?d \<ge> base" | "?d < base" "?d > (maxInt - i) div w"
    | "?d < base" "\<not> ?d > (maxInt - i) div w" "?d < ?t"
    | "?d < base" "\<not> ?d > (maxInt - i) div w" "\<not> ?d < ?t" "w > maxInt div (base - ?t)"
    | "?d < base" "\<not> ?d > (maxInt - i) div w" "\<not> ?d < ?t" "\<not> w > maxInt div (base - ?t)"
    by linarith
  then show ?case
  proof cases
    case 1
    then show ?thesis by (simp add: decodeDigits_Cons)
  next
    case 2
    then show ?thesis by (simp add: decodeDigits_Cons)
  next
    case 3
    with dw show ?thesis by (simp add: decodeDigits_Cons)
  next
    case 4
    then show ?thesis by (simp add: decodeDigits_Cons)
  next
    case 5
    then have eq: "decodeDigits (c # cs) i w k bias
        = decodeDigits cs (i + ?d * w) (w * (base - ?t)) (k + base) bias"
      by (simp add: decodeDigits_Cons)
    from Cons.IH [OF w' i', of "k + base"] dw show ?thesis
      unfolding eq by force
  qed
qed

lemma copyBasic_result:
  "(\<forall>x\<in>set out. 0 \<le> x) \<Longrightarrow>
   copyBasic s out = error NotBasic \<or> (\<exists>out'. copyBasic s out = Inr out' \<and> (\<forall>x\<in>set out'. 0 \<le> x))"
  by (induction s arbitrary: out) auto

lemma splice_set: "set (splice out i n) = insert n (set out)"
proof -
  have "set out = set (take (nat i) out) \<union> set (drop (nat i) out)"
    by (metis append_take_drop_id set_append)
  then show ?thesis by (auto simp: splice_def)
qed

lemma decodeLoop_result:
  assumes "0 \<le> i" "0 \<le> n" "\<forall>x\<in>set out. 0 \<le> x"
  shows "decodeLoop s i n bias out = error Overflow \<or> decodeLoop s i n bias out = error InvalidInput
       \<or> (\<exists>out'. decodeLoop s i n bias out = Inr out' \<and> (\<forall>x\<in>set out'. 0 \<le> x))"
  using assms
proof (induction s arbitrary: i n bias out rule: length_induct)
  case (1 s)
  show ?case
  proof (cases "s = []")
    case True
    with 1(4) show ?thesis by simp
  next
    case False
    let ?out = "int (length out) + 1"
    from decodeDigits_result [of 1 i s base bias] 1(2)
    consider "decodeDigits s i 1 base bias = error Overflow"
      | "decodeDigits s i 1 base bias = error InvalidInput"
      | i' rest where "decodeDigits s i 1 base bias = Inr (i', rest)" "i \<le> i'"
      by auto
    then show ?thesis
    proof cases
      case 1
      then show ?thesis using False by (simp add: error_def decodeLoop_throw)
    next
      case 2
      then show ?thesis using False by (simp add: error_def decodeLoop_throw)
    next
      case (3 i' rest)
      note step = decodeLoop_step [OF False 3(1), where n = n and out = out]
      show ?thesis
      proof (cases "i' div ?out > maxInt - n")
        case True
        then show ?thesis unfolding step by simp
      next
        case False
        have i': "0 \<le> i'" using 3(2) 1(2) by simp
        then have q: "0 \<le> i' div ?out" by (simp add: pos_imp_zdiv_nonneg_iff)
        have r: "jsRem i' ?out = i' mod ?out" using i' by (simp add: jsRem_nonneg)
        have len: "length rest < length s" using 3(1) by (rule decodeDigits_shorter)
        have A: "\<forall>x\<in>set (splice out (i' mod ?out) (n + i' div ?out)). 0 \<le> x"
          using 1(3,4) q by (simp add: splice_set)
        have B: "0 \<le> i' mod ?out + 1" and C: "0 \<le> n + i' div ?out"
          using q 1(3) by simp_all
        let ?r = "decodeLoop rest (i' mod ?out + 1) (n + i' div ?out) (adapt (i' - i) ?out (i = 0))
                    (splice out (i' mod ?out) (n + i' div ?out))"
        have IH: "?r = error Overflow \<or> ?r = error InvalidInput
            \<or> (\<exists>out'. ?r = Inr out' \<and> (\<forall>x\<in>set out'. 0 \<le> x))"
          by (rule 1(1) [rule_format, OF len B C A [rule_format]])
        have "decodeLoop s i n bias out = ?r"
          unfolding step r using False by simp
        with IH show ?thesis by simp
      qed
    qed
  qed
qed

lemma fromCodePoint_result:
  "\<forall>x\<in>set cps. 0 \<le> x \<Longrightarrow>
   (\<exists>cp. 0x10FFFF < cp \<and> fromCodePoint cps = Inl (InvalidCodePoint cp)) \<or> (\<exists>s. fromCodePoint cps = Inr s)"
  by (induction cps) (auto split: sum.splits)

lemma decode_result:
  "decode input = error Overflow \<or> decode input = error NotBasic \<or> decode input = error InvalidInput
   \<or> (\<exists>cp. 0x10FFFF < cp \<and> decode input = Inl (InvalidCodePoint cp)) \<or> (\<exists>s. decode input = Inr s)"
proof -
  let ?basic = "if lastIndexOf input delimiter < 0 then 0 else lastIndexOf input delimiter"
  let ?rest = "drop (nat (if ?basic > 0 then ?basic + 1 else 0)) input"
  from copyBasic_result [of "[]" "take (nat ?basic) input"]
  consider "copyBasic (take (nat ?basic) input) [] = error NotBasic"
    | out where "copyBasic (take (nat ?basic) input) [] = Inr out" "\<forall>x\<in>set out. 0 \<le> x"
    by auto
  then show ?thesis
  proof cases
    case 1
    then show ?thesis by (simp add: decode_def decodePoints_def Let_def error_def)
  next
    case (2 out)
    from decodeLoop_result [of 0 initialN out ?rest initialBias] 2(2)
    consider "decodeLoop ?rest 0 initialN initialBias out = error Overflow"
      | "decodeLoop ?rest 0 initialN initialBias out = error InvalidInput"
      | out' where "decodeLoop ?rest 0 initialN initialBias out = Inr out'" "\<forall>x\<in>set out'. 0 \<le> x"
      by (auto simp: params)
    then show ?thesis
    proof cases
      case 1
      with 2 show ?thesis by (simp add: decode_def decodePoints_def Let_def error_def)
    next
      case 2
      with \<open>copyBasic (take (nat ?basic) input) [] = Inr out\<close> show ?thesis
        by (simp add: decode_def decodePoints_def Let_def error_def)
    next
      case (3 out')
      with \<open>copyBasic (take (nat ?basic) input) [] = Inr out\<close> fromCodePoint_result [OF 3(2)]
      show ?thesis by (auto simp add: decode_def decodePoints_def Let_def)
    qed
  qed
qed

section \<open>The main encoding loop returns\<close>

lemma nextM_le: "nextM xs n a \<le> a"
proof (induction xs arbitrary: a)
  case Nil
  show ?case by simp
next
  case (Cons x xs)
  have "nextM xs n (if x \<ge> n \<and> x < a then x else a) \<le> (if x \<ge> n \<and> x < a then x else a)"
    by (rule Cons)
  also have "\<dots> \<le> a" by simp
  finally show ?case by simp
qed

lemma nextM_lower:
  "c \<in> set xs \<Longrightarrow> n \<le> c \<Longrightarrow> nextM xs n a \<le> c"
proof (induction xs arbitrary: a)
  case Nil
  then show ?case by simp
next
  case (Cons x xs)
  show ?case
  proof (cases "c \<in> set xs")
    case True
    with Cons show ?thesis by simp
  next
    case False
    with Cons.prems have cx: "c = x" by simp
    have "nextM xs n (if x \<ge> n \<and> x < a then x else a) \<le> (if x \<ge> n \<and> x < a then x else a)"
      by (rule nextM_le)
    also have "\<dots> \<le> c" using cx Cons.prems(2) by simp
    finally show ?thesis by simp
  qed
qed

lemma nextM_mem:
  "nextM xs n a = a \<or> (nextM xs n a \<in> set xs \<and> n \<le> nextM xs n a)"
proof (induction xs arbitrary: a)
  case Nil
  show ?case by simp
next
  case (Cons x xs)
  show ?case
  proof (cases "x \<ge> n \<and> x < a")
    case True
    with Cons [of x] show ?thesis by auto
  next
    case False
    with Cons [of a] show ?thesis by auto
  qed
qed

lemma nextM_props:
  assumes "\<forall>c\<in>set arr. c < maxInt" and "\<exists>c\<in>set arr. n \<le> c"
  shows "nextM arr n maxInt \<in> set arr \<and> n \<le> nextM arr n maxInt
       \<and> (\<forall>c\<in>set arr. n \<le> c \<longrightarrow> nextM arr n maxInt \<le> c)"
proof -
  have low: "\<forall>c\<in>set arr. n \<le> c \<longrightarrow> nextM arr n maxInt \<le> c"
    by (simp add: nextM_lower)
  from assms obtain c where c: "c \<in> set arr" "n \<le> c" "c < maxInt" by blast
  with low have "nextM arr n maxInt \<le> c" by blast
  with c(3) have ne: "nextM arr n maxInt \<noteq> maxInt" by linarith
  from nextM_mem [of arr n maxInt] ne
  have "nextM arr n maxInt \<in> set arr \<and> n \<le> nextM arr n maxInt"
    by blast
  with low show ?thesis by blast
qed

lemma cntEq_simps [simp]:
  "cntEq [] n = 0"
  "cntEq (c # cs) n = (if c = n then 1 else 0) + cntEq cs n"
  by (simp_all add: cntEq_def)

lemma cntLt_simps [simp]:
  "cntLt [] n = 0"
  "cntLt (c # cs) n = (if c < n then 1 else 0) + cntLt cs n"
  by (simp_all add: cntLt_def)

lemma cntEq_nonneg: "0 \<le> cntEq arr n"
  by (simp add: cntEq_def)

lemma cntEq_pos: "n \<in> set arr \<Longrightarrow> 0 < cntEq arr n"
  by (induction arr) (auto simp: add_pos_nonneg cntEq_nonneg)

lemma cntLt_Suc: "cntLt arr (m + 1) = cntLt arr m + cntEq arr m"
  by (induction arr) auto

lemma cntLt_gap:
  "n \<le> m \<Longrightarrow> \<forall>c\<in>set arr. n \<le> c \<longrightarrow> m \<le> c \<Longrightarrow> cntLt arr m = cntLt arr n"
  by (induction arr) auto

lemma cntLt_le_length: "cntLt arr n \<le> int (length arr)"
  by (simp add: cntLt_def)

lemma cntLt_all: "\<forall>c\<in>set arr. c < n \<Longrightarrow> cntLt arr n = int (length arr)"
  by (induction arr) auto

lemma encodePass_Cons:
  "encodePass (c # rest) n hp1 bl (delta, bias, h, out) =
     (if c < n then
        (if delta + 1 > maxInt then error Overflow
         else encodePass rest n hp1 bl (delta + 1, bias, h, out))
      else if c = n then
        encodePass rest n hp1 bl
          (0, adapt delta hp1 (h = bl), h + 1, out @ encodeDigits delta base bias)
      else encodePass rest n hp1 bl (delta, bias, h, out))"
  by (simp add: Let_def)

declare encodePass.simps(2) [simp del]

lemma encodePass_result:
  assumes "0 \<le> delta"
  shows "encodePass suf n hp1 bl (delta, bias, h, out) = error Overflow
       \<or> (\<exists>delta' bias' D.
             encodePass suf n hp1 bl (delta, bias, h, out)
               = Inr (delta', bias', h + cntEq suf n, out @ D)
             \<and> 0 \<le> delta' \<and> (\<forall>c\<in>set D. digitUnit c))"
  using assms
proof (induction suf arbitrary: delta bias h out)
  case Nil
  then show ?case by simp
next
  case (Cons c rest)
  consider "c < n" "delta + 1 > maxInt" | "c < n" "\<not> delta + 1 > maxInt" | "c = n" | "n < c"
    by linarith
  then show ?case
  proof cases
    case 1
    then show ?thesis by (simp add: encodePass_Cons)
  next
    case 2
    have "0 \<le> delta + 1" using Cons.prems by simp
    from Cons.IH [OF this, of bias h out] 2 show ?thesis
      by (simp add: encodePass_Cons)
  next
    case 3
    have d: "\<forall>c\<in>set (encodeDigits delta base bias). digitUnit c"
      using Cons.prems by (rule encodeDigits_units)
    from Cons.IH [of 0 "adapt delta hp1 (h = bl)" "h + 1" "out @ encodeDigits delta base bias"]
    consider "encodePass rest n hp1 bl (0, adapt delta hp1 (h = bl), h + 1,
        out @ encodeDigits delta base bias) = error Overflow"
      | delta' bias' D where "encodePass rest n hp1 bl (0, adapt delta hp1 (h = bl), h + 1,
        out @ encodeDigits delta base bias)
          = Inr (delta', bias', h + 1 + cntEq rest n, (out @ encodeDigits delta base bias) @ D)"
        "0 \<le> delta'" "\<forall>c\<in>set D. digitUnit c"
      by auto
    then show ?thesis
    proof cases
      case 1
      with 3 show ?thesis by (simp add: encodePass_Cons)
    next
      case (2 delta' bias' D)
      have "\<forall>c\<in>set (encodeDigits delta base bias @ D). digitUnit c"
        using d 2(3) by auto
      with 2(1,2) 3 show ?thesis
        by (simp add: encodePass_Cons)
    qed
  next
    case 4
    from Cons.IH [OF Cons.prems, of bias h out] 4 show ?thesis
      by (simp add: encodePass_Cons)
  qed
qed

lemma encodeLoop_result:
  assumes "\<forall>c\<in>set arr. c < maxInt" "h = cntLt arr n" "0 \<le> delta"
  shows "\<exists>r. encodeLoop arr bl n delta bias h out = Some r
           \<and> (r = error Overflow \<or> (\<exists>D. r = Inr (out @ D) \<and> (\<forall>c\<in>set D. digitUnit c)))"
  using assms(2,3)
proof (induction "nat (int (length arr) - h)" arbitrary: n delta bias h out rule: less_induct)
  case less
  show ?case
  proof (cases "h < int (length arr)")
    case False
    then show ?thesis by (subst encodeLoop.simps) simp
  next
    case True
    let ?m = "nextM arr n maxInt"
    have "\<exists>c\<in>set arr. n \<le> c"
    proof (rule ccontr)
      assume "\<not> (\<exists>c\<in>set arr. n \<le> c)"
      then have "\<forall>c\<in>set arr. c < n" by auto
      then have "cntLt arr n = int (length arr)" by (rule cntLt_all)
      with True less.prems(1) show False by simp
    qed
    with nextM_props [OF assms(1)]
    have m: "?m \<in> set arr" "n \<le> ?m" "\<forall>c\<in>set arr. n \<le> c \<longrightarrow> ?m \<le> c"
      by blast+
    have h0: "0 \<le> h" using less.prems(1) by (simp add: cntLt_def)
    show ?thesis
    proof (cases "?m - n > (maxInt - delta) div (h + 1)")
      case True
      with \<open>h < int (length arr)\<close> show ?thesis
        by (subst encodeLoop.simps) (simp add: Let_def)
    next
      case False
      have d2: "0 \<le> delta + (?m - n) * (h + 1)"
        using less.prems(2) m(2) h0 by simp
      from encodePass_result [OF d2, of arr ?m "h + 1" bl bias h out]
      consider "encodePass arr ?m (h + 1) bl (delta + (?m - n) * (h + 1), bias, h, out) = error Overflow"
        | delta' bias' D where
          "encodePass arr ?m (h + 1) bl (delta + (?m - n) * (h + 1), bias, h, out)
             = Inr (delta', bias', h + cntEq arr ?m, out @ D)"
          "0 \<le> delta'" "\<forall>c\<in>set D. digitUnit c"
        by blast
      then show ?thesis
      proof cases
        case 1
        with False \<open>h < int (length arr)\<close> show ?thesis
          by (subst encodeLoop.simps) (simp add: Let_def error_def)
      next
        case (2 delta' bias' D)
        let ?h' = "h + cntEq arr ?m"
        have h': "?h' = cntLt arr (?m + 1)"
          using cntLt_gap [OF m(2) m(3)] less.prems(1) by (simp add: cntLt_Suc)
        have pos: "0 < cntEq arr ?m" using m(1) by (rule cntEq_pos)
        have "?h' \<le> int (length arr)" unfolding h' by (rule cntLt_le_length)
        with pos \<open>h < int (length arr)\<close>
        have dec: "nat (int (length arr) - ?h') < nat (int (length arr) - h)" by simp
        have d': "0 \<le> delta' + 1" using 2(2) by simp
        from less.hyps [OF dec h' d', of bias' "out @ D"]
        obtain r where r: "encodeLoop arr bl (?m + 1) (delta' + 1) bias' ?h' (out @ D) = Some r"
          "r = error Overflow \<or> (\<exists>D'. r = Inr ((out @ D) @ D') \<and> (\<forall>c\<in>set D'. digitUnit c))"
          by blast
        have step: "encodeLoop arr bl n delta bias h out = Some r"
          using False \<open>h < int (length arr)\<close> 2(1) r(1)
          by (subst encodeLoop.simps) (simp add: Let_def)
        from r(2) show ?thesis
        proof
          assume "r = error Overflow"
          with step show ?thesis by simp
        next
          assume "\<exists>D'. r = Inr ((out @ D) @ D') \<and> (\<forall>c\<in>set D'. digitUnit c)"
          then obtain D' where D': "r = Inr (out @ (D @ D'))" "\<forall>c\<in>set D'. digitUnit c"
            by auto
          with 2(3) have "\<forall>c\<in>set (D @ D'). digitUnit c" by auto
          with D'(1) step show ?thesis by blast
        qed
      qed
    qed
  qed
qed

lemma uint16_range: "0 \<le> uint (c :: 16 word)" "uint (c :: 16 word) < 65536"
  using uint_bounded [of c] by simp_all

lemma pair_range:
  fixes v e :: int
  shows "0 \<le> push_bit 10 (v AND 0x3FF) + (e AND 0x3FF) + 0x10000"
    and "push_bit 10 (v AND 0x3FF) + (e AND 0x3FF) + 0x10000 \<le> 0x10FFFF"
proof -
  have v: "0 \<le> v AND 0x3FF" "v AND 0x3FF \<le> 0x3FF"
    by (simp_all add: AND_upper2')
  have e: "0 \<le> e AND 0x3FF" "e AND 0x3FF \<le> 0x3FF"
    by (simp_all add: AND_upper2')
  have p: "push_bit 10 (v AND 0x3FF) = (v AND 0x3FF) * 1024"
    by (simp add: push_bit_eq_mult)
  show "0 \<le> push_bit 10 (v AND 0x3FF) + (e AND 0x3FF) + 0x10000"
    unfolding p using v e by simp
  have "(v AND 0x3FF) * 1024 \<le> 0x3FF * 1024"
    using v(2) by (intro mult_right_mono) simp_all
  then show "push_bit 10 (v AND 0x3FF) + (e AND 0x3FF) + 0x10000 \<le> 0x10FFFF"
    unfolding p using e by linarith
qed

lemma ucs2decode_pair:
  "0xD800 \<le> uint v \<Longrightarrow> uint v \<le> 0xDBFF \<Longrightarrow> uint e AND 0xFC00 = 0xDC00 \<Longrightarrow>
   ucs2decode (v # e # rest)
     = (push_bit 10 (uint v AND 0x3FF) + (uint e AND 0x3FF) + 0x10000) # ucs2decode rest"
  by (simp add: Let_def)

lemma ucs2decode_single:
  "\<not> (0xD800 \<le> uint v \<and> uint v \<le> 0xDBFF \<and> uint e AND 0xFC00 = 0xDC00) \<Longrightarrow>
   ucs2decode (v # e # rest) = uint v # ucs2decode (e # rest)"
  by (auto simp: Let_def)

declare ucs2decode.simps(3) [simp del]

lemma ucs2decode_range:
  "\<forall>c\<in>set (ucs2decode s). 0 \<le> c \<and> c \<le> 0x10FFFF"
proof (induction s rule: ucs2decode.induct)
  case 1
  show ?case by simp
next
  case (2 v)
  show ?case using uint16_range [of v] by simp
next
  case (3 v e rest)
  show ?case
  proof (cases "0xD800 \<le> uint v \<and> uint v \<le> 0xDBFF \<and> uint e AND 0xFC00 = 0xDC00")
    case False
    have IH: "\<forall>c\<in>set (ucs2decode (e # rest)). 0 \<le> c \<and> c \<le> 0x10FFFF"
    proof (cases "0xD800 \<le> uint v \<and> uint v \<le> 0xDBFF")
      case True
      with False have "uint e AND 0xFC00 \<noteq> 0xDC00" by simp
      with True 3(2) show ?thesis by simp
    next
      case False
      with 3(3) show ?thesis by simp
    qed
    show ?thesis
      unfolding ucs2decode_single [OF False] using IH uint16_range [of v] by simp
  next
    case True
    then have IH: "\<forall>c\<in>set (ucs2decode rest). 0 \<le> c \<and> c \<le> 0x10FFFF"
      using 3(1) by simp
    from True have eq: "ucs2decode (v # e # rest)
        = (push_bit 10 (uint v AND 0x3FF) + (uint e AND 0x3FF) + 0x10000) # ucs2decode rest"
      by (intro ucs2decode_pair) simp_all
    show ?thesis
      unfolding eq using IH pair_range [of "uint v" "uint e"] by simp
  qed
qed

lemma encode_result:
  "\<exists>r. encode input = Some r \<and> (r = error Overflow \<or> (\<exists>s. r = Inr s))"
proof -
  let ?arr = "ucs2decode input"
  let ?out = "map stringFromCharCode (filter (\<lambda>c. c < 0x80) ?arr)"
  have lt: "\<forall>c\<in>set ?arr. c < maxInt"
    using ucs2decode_range [of input] by (auto simp: params)
  have h: "int (length ?out) = cntLt ?arr initialN"
    by (simp add: cntLt_def params)
  from encodeLoop_result [OF lt h, of 0 "int (length ?out)" initialBias
      "if int (length ?out) \<noteq> 0 then ?out @ [delimiter] else ?out"]
  show ?thesis
    unfolding encode_def Let_def by blast
qed

section \<open>Failure modes (claim C4)\<close>

lemma lastIndexOf_none: "c \<notin> set s \<Longrightarrow> lastIndexOf s c = -1"
  by (induction s) (auto simp: Let_def)

lemma lastIndexOf_last: "c \<notin> set D \<Longrightarrow> lastIndexOf (a @ c # D) c = int (length a)"
  by (induction a) (simp_all add: Let_def lastIndexOf_none)

lemma copyBasic_replicate:
  "uint v < 0x80 \<Longrightarrow> copyBasic (replicate k v) acc = Inr (acc @ replicate k (uint v))"
  by (induction k arbitrary: acc) (simp_all add: replicate_app_Cons_same)

lemma decodePoints_basic_only:
  assumes "uint v < 0x80" "v \<noteq> delimiter"
  shows "decodePoints (replicate (Suc k) v @ [delimiter]) = Inr (replicate (Suc k) (uint v))"
proof -
  define b where "b = replicate (Suc k) v"
  have nodel: "delimiter \<notin> set b" using assms(2) by (auto simp: b_def)
  have "lastIndexOf (b @ delimiter # []) delimiter = int (length b)"
    by (rule lastIndexOf_last) simp
  then have li: "lastIndexOf (b @ [delimiter]) delimiter = int (length b)" by simp
  have tk: "take (nat (int (length b))) (b @ [delimiter]) = b" by simp
  have "nat (int (length b) + 1) = Suc (length b)" by simp
  then have dr: "drop (nat (int (length b) + 1)) (b @ [delimiter]) = []" by simp
  have cb: "copyBasic b [] = Inr (replicate (Suc k) (uint v))"
    unfolding b_def using copyBasic_replicate [OF assms(1), of "Suc k" "[]"] by simp
  have pos: "\<not> int (length b) < 0" "0 < int (length b)" by (simp_all add: b_def)
  have "decodePoints (b @ [delimiter]) = Inr (replicate (Suc k) (uint v))"
    unfolding decodePoints_def li Let_def
    by (simp only: pos tk dr cb if_True if_False sum.case decodeLoop.simps)
  then show ?thesis by (simp only: b_def)
qed

text \<open>The error of the engine is met: with more basic code points than a call takes
  arguments, the last statement of \<open>decode\<close> throws.\<close>

lemma decodeOn_too_long:
  "decodeOn maxArgs (replicate (Suc maxArgs) 0x61 @ [delimiter]) = Inl StackSizeExceeded"
proof -
  have "decodePoints (replicate (Suc maxArgs) 0x61 @ [delimiter])
      = Inr (replicate (Suc maxArgs) (uint (0x61 :: 16 word)))"
    by (rule decodePoints_basic_only) (simp_all add: delimiter_def)
  then show ?thesis by (simp add: decodeOn_def)
qed

lemma decodeOn_result:
  "decodeOn maxArgs input = error Overflow \<or> decodeOn maxArgs input = error NotBasic
   \<or> decodeOn maxArgs input = error InvalidInput
   \<or> (\<exists>cp. 0x10FFFF < cp \<and> decodeOn maxArgs input = Inl (InvalidCodePoint cp))
   \<or> decodeOn maxArgs input = Inl StackSizeExceeded
   \<or> (\<exists>s. decodeOn maxArgs input = Inr s)"
proof (cases "decodePoints input")
  case (Inl e)
  then have "decodeOn maxArgs input = decode input"
    by (simp add: decodeOn_def decode_def)
  with decode_result [of input] show ?thesis by auto
next
  case (Inr out)
  show ?thesis
  proof (cases "length out > maxArgs")
    case True
    with Inr show ?thesis by (simp add: decodeOn_def)
  next
    case False
    with Inr have "decodeOn maxArgs input = decode input"
      by (simp add: decodeOn_def decode_def)
    with decode_result [of input] show ?thesis by auto
  qed
qed

text \<open>
  Claim C4, as amended: \<open>encode\<close> always returns, with a string or with the
  \<open>Overflow\<close> error. \<open>decode\<close>, whatever the number of arguments a call takes, returns
  a string or throws one of \<open>Overflow\<close>, \<open>NotBasic\<close>, \<open>InvalidInput\<close>, or else a
  \<open>RangeError\<close> of its last statement \<open>String.fromCodePoint(...output)\<close>: the one of the
  built-in, which gets the decoded code points without a check and rejects a code point
  above \<open>0x10FFFF\<close>, or the one of the engine, when the array has more elements than a
  call takes arguments. The three errors of the codec carry the fixed messages of the
  table.
\<close>

theorem failure_modes:
  "(\<exists>r. encode input = Some r \<and> (r = error Overflow \<or> (\<exists>s. r = Inr s)))
   \<and> (decodeOn maxArgs input = error Overflow \<or> decodeOn maxArgs input = error NotBasic
        \<or> decodeOn maxArgs input = error InvalidInput
        \<or> (\<exists>cp. 0x10FFFF < cp \<and> decodeOn maxArgs input = Inl (InvalidCodePoint cp))
        \<or> decodeOn maxArgs input = Inl StackSizeExceeded
        \<or> (\<exists>s. decodeOn maxArgs input = Inr s))
   \<and> (error Overflow :: exn + jsstring)
        = Inl (RangeError ''Overflow: input needs wider integers to process'')
   \<and> (error NotBasic :: exn + jsstring)
        = Inl (RangeError ''Illegal input >= 0x80 (not a basic code point)'')
   \<and> (error InvalidInput :: exn + jsstring) = Inl (RangeError ''Invalid input'')"
  using encode_result [of input] decodeOn_result [of maxArgs input]
  by (simp add: error_def PUNYCODE_ERRORS_def)

text \<open>The claim as stated fails: \<open>decode("9999z")\<close> reaches the code point
  \<open>3535513\<close> and throws the error of \<open>String.fromCodePoint\<close>, which is none of the
  three.\<close>

theorem decode_invalid_code_point:
  "decode [0x39, 0x39, 0x39, 0x39, 0x7A] = Inl (InvalidCodePoint 3535513)
   \<and> decodeOn 1 [0x39, 0x39, 0x39, 0x39, 0x7A] = Inl (InvalidCodePoint 3535513)
   \<and> decode [0x39, 0x39, 0x39, 0x39, 0x7A] \<noteq> error Overflow
   \<and> decode [0x39, 0x39, 0x39, 0x39, 0x7A] \<noteq> error NotBasic
   \<and> decode [0x39, 0x39, 0x39, 0x39, 0x7A] \<noteq> error InvalidInput"
  by code_simp

section \<open>Applying a conversion twice (claim C7)\<close>

lemma mapDomain_parts:
  "mapDomain domain callback
     = prefixed (localPart domain) (joined (map_cb callback (domainLabels domain)))"
  by (simp add: mapDomain_labels localPart_def Let_def)

lemma split_first_piece: "c \<notin> set (split c s ! 0)"
  using split_pieces [where p = "split c s ! 0" and c = c and s = s] split_not_Nil
  by (cases "split c s") auto

lemma localPart_form:
  "localPart x = [] \<or> (\<exists>p0. localPart x = p0 @ [0x40] \<and> 0x40 \<notin> set p0)"
  using split_first_piece [of "0x40" x] by (auto simp: localPart_def Let_def)

lemma domain_no_at:
  "0x40 \<notin> set (if length (split 0x40 x) > 1 then split 0x40 x ! 1 else x)"
proof (cases "length (split 0x40 x) > 1")
  case True
  then have "split 0x40 x ! 1 \<in> set (split 0x40 x)" by (intro nth_mem) simp
  with True show ?thesis
    using split_pieces [where p = "split 0x40 x ! 1" and c = "0x40" and s = x] by simp
next
  case False
  then have "count_list x 0x40 = 0" by (simp add: length_split)
  with False show ?thesis by (simp add: count_list_0_iff)
qed

lemma domainLabels_clean:
  assumes "l \<in> set (domainLabels x)" "c \<in> set l"
  shows "cleanUnit c"
proof -
  let ?d = "if length (split 0x40 x) > 1 then split 0x40 x ! 1 else x"
  from assms(1) have l: "l \<in> set (split 0x2E (replaceSeparators ?d))"
    by (simp add: domainLabels_def Let_def)
  then have "0x2E \<notin> set l" "set l \<subseteq> set (replaceSeparators ?d)"
    using split_pieces [where p = l and c = "0x2E" and s = "replaceSeparators ?d"] by simp_all
  with assms(2) have c: "c \<noteq> 0x2E" "c \<in> set (replaceSeparators ?d)" by auto
  then obtain c0 where c0: "c0 \<in> set ?d" "c = (if regexSeparators c0 then 0x2E else c0)"
    by (auto simp: replaceSeparators_def)
  with c(1) have "c = c0" "\<not> regexSeparators c0" by (auto split: if_splits)
  moreover have "c0 \<noteq> 0x40" using c0(1) domain_no_at [of x] by auto
  ultimately show ?thesis by (simp add: cleanUnit_def)
qed

lemma domainLabels_not_Nil [simp]: "domainLabels x \<noteq> []"
  by (simp add: domainLabels_def Let_def)

lemma rebuild:
  assumes pre: "pre = [] \<or> (\<exists>p0. pre = p0 @ [0x40] \<and> 0x40 \<notin> set p0)"
    and ne: "ls \<noteq> []"
    and clean: "\<forall>l\<in>set ls. \<forall>c\<in>set l. cleanUnit c"
  shows "localPart (pre @ join 0x2E ls) = pre \<and> domainLabels (pre @ join 0x2E ls) = ls"
proof -
  let ?d = "join 0x2E ls"
  have chars: "c \<noteq> 0x40 \<and> (regexSeparators c \<longrightarrow> c = 0x2E)" if "c \<in> set ?d" for c
  proof -
    from that have "c = 0x2E \<or> (\<exists>l\<in>set ls. c \<in> set l)"
      using set_join [where c = "0x2E" and ls = ls] by auto
    then show ?thesis using clean by (auto simp: cleanUnit_def)
  qed
  then have noat: "0x40 \<notin> set ?d" by auto
  have norm: "replaceSeparators ?d = ?d"
    using chars by (intro replaceSeparators_id) auto
  have "\<forall>l\<in>set ls. 0x2E \<notin> set l"
    using clean by (auto simp: cleanUnit_def regexSeparators_def)
  then have labels: "split 0x2E ?d = ls"
    using ne by (intro split_join) auto
  from pre show ?thesis
  proof
    assume "pre = []"
    then show ?thesis
      using noat by (simp add: localPart_def domainLabels_def split_no_sep norm labels)
  next
    assume "\<exists>p0. pre = p0 @ [0x40] \<and> 0x40 \<notin> set p0"
    then obtain p0 where p0: "pre = p0 @ [0x40]" "0x40 \<notin> set p0" by blast
    then have "split 0x40 (pre @ ?d) = [p0, ?d]"
      using noat by (simp add: split_append_sep split_no_sep)
    then show ?thesis
      using p0 by (simp add: localPart_def domainLabels_def norm labels)
  qed
qed

lemma map_cb_Inr:
  "map_cb f ls = Some (Inr ls') \<Longrightarrow> list_all2 (\<lambda>l l'. f l = Some (Inr l')) ls ls'"
proof (induction ls arbitrary: ls')
  case Nil
  then show ?case by simp
next
  case (Cons x xs)
  from Cons.prems obtain ys y where
    "map_cb f xs = Some (Inr ys)" "f x = Some (Inr y)" "ls' = y # ys"
    by (auto split: option.splits sum.splits)
  with Cons.IH [of ys] show ?case by simp
qed

lemma andThen_simps [simp]:
  "andThen None f = None"
  "andThen (Some (Inl e)) f = Some (Inl e)"
  "andThen (Some (Inr x)) f = f x"
  by (simp_all add: andThen_def)

text \<open>A transform that keeps labels clean and leaves its own results alone is
  idempotent through \<open>mapDomain\<close>.\<close>

lemma mapDomain_idempotent:
  assumes keep: "\<And>l l'. (\<forall>c\<in>set l. cleanUnit c) \<Longrightarrow> f l = Some (Inr l')
                  \<Longrightarrow> (\<forall>c\<in>set l'. cleanUnit c) \<and> f l' = Some (Inr l')"
  shows "andThen (mapDomain x f) (\<lambda>y. mapDomain y f) = mapDomain x f"
proof (cases "map_cb f (domainLabels x)")
  case None
  then show ?thesis by (simp add: mapDomain_parts joined_def prefixed_def)
next
  case (Some r)
  show ?thesis
  proof (cases r)
    case (Inl e)
    with Some show ?thesis by (simp add: mapDomain_parts joined_def prefixed_def)
  next
    case (Inr ls')
    let ?y = "localPart x @ join 0x2E ls'"
    from Some Inr have y: "mapDomain x f = Some (Inr ?y)"
      by (simp add: mapDomain_parts joined_def prefixed_def)
    from Some Inr have all2: "list_all2 (\<lambda>l l'. f l = Some (Inr l')) (domainLabels x) ls'"
      by (intro map_cb_Inr) simp
    then have ne: "ls' \<noteq> []" using domainLabels_not_Nil [of x] by auto
    have kept: "(\<forall>c\<in>set l'. cleanUnit c) \<and> f l' = Some (Inr l')" if "l' \<in> set ls'" for l'
    proof -
      from that obtain i where i: "i < length ls'" "l' = ls' ! i"
        by (auto simp: in_set_conv_nth)
      with all2 have len: "i < length (domainLabels x)"
        and fl: "f (domainLabels x ! i) = Some (Inr l')"
        by (auto simp: list_all2_conv_all_nth)
      have "domainLabels x ! i \<in> set (domainLabels x)" using len by (rule nth_mem)
      then have "\<forall>c\<in>set (domainLabels x ! i). cleanUnit c"
        using domainLabels_clean by blast
      then show ?thesis using fl by (rule keep)
    qed
    then have clean: "\<forall>l\<in>set ls'. \<forall>c\<in>set l. cleanUnit c" by blast
    from rebuild [OF localPart_form ne clean]
    have re: "localPart ?y = localPart x" "domainLabels ?y = ls'" by blast+
    have "map_cb f ls' = Some (Inr ls')"
      using kept by (intro map_cb_unchanged) blast
    then have "mapDomain ?y f = Some (Inr ?y)"
      by (simp add: mapDomain_parts re joined_def prefixed_def)
    with y show ?thesis by simp
  qed
qed

lemma pair_astral:
  fixes v e :: int
  shows "0x10000 \<le> push_bit 10 (v AND 0x3FF) + (e AND 0x3FF) + 0x10000"
proof -
  have "0 \<le> v AND 0x3FF" "0 \<le> e AND 0x3FF" by simp_all
  then have "0 \<le> push_bit 10 (v AND 0x3FF)" "0 \<le> e AND 0x3FF"
    by (simp_all add: push_bit_eq_mult)
  then show ?thesis by linarith
qed

lemma ucs2decode_unit:
  "c \<in> set (ucs2decode s) \<Longrightarrow> c < 0x10000 \<Longrightarrow> \<exists>v\<in>set s. c = uint v"
proof (induction s rule: ucs2decode.induct)
  case 1
  then show ?case by simp
next
  case (2 v)
  then show ?case by simp
next
  case (3 v e rest)
  show ?case
  proof (cases "0xD800 \<le> uint v \<and> uint v \<le> 0xDBFF \<and> uint e AND 0xFC00 = 0xDC00")
    case True
    define P where "P = push_bit 10 (uint v AND 0x3FF) + (uint e AND 0x3FF) + 0x10000"
    from True have eq: "ucs2decode (v # e # rest) = P # ucs2decode rest"
      unfolding P_def by (intro ucs2decode_pair) simp_all
    have "0x10000 \<le> P" unfolding P_def by (rule pair_astral)
    with 3(5) have "c \<noteq> P" by simp
    with 3(4) have "c \<in> set (ucs2decode rest)"
      unfolding eq by simp
    with 3(1) [OF refl _ refl] True 3(5) show ?thesis by auto
  next
    case False
    from 3(4) have "c = uint v \<or> c \<in> set (ucs2decode (e # rest))"
      unfolding ucs2decode_single [OF False] by simp
    then show ?thesis
    proof
      assume "c = uint v"
      then show ?thesis by simp
    next
      assume c: "c \<in> set (ucs2decode (e # rest))"
      have "\<exists>v\<in>set (e # rest). c = uint v"
      proof (cases "0xD800 \<le> uint v \<and> uint v \<le> 0xDBFF")
        case True
        with False have "uint e AND 0xFC00 \<noteq> 0xDC00" by simp
        with True 3(2) [OF refl _ refl _ c 3(5)] show ?thesis by simp
      next
        case False
        with 3(3) [OF refl _ c 3(5)] show ?thesis by simp
      qed
      then show ?thesis by auto
    qed
  qed
qed

lemma stringFromCharCode_uint [simp]: "stringFromCharCode (uint v) = v"
  by (simp add: stringFromCharCode_def)

lemma encode_units:
  assumes "encode l = Some (Inr e)" and "c \<in> set e"
  shows "c \<in> set l \<and> uint c < 0x80 \<or> c = delimiter \<or> digitUnit c"
proof -
  let ?arr = "ucs2decode l"
  let ?out = "map stringFromCharCode (filter (\<lambda>c. c < 0x80) ?arr)"
  let ?out' = "if int (length ?out) \<noteq> 0 then ?out @ [delimiter] else ?out"
  have lt: "\<forall>c\<in>set ?arr. c < maxInt"
    using ucs2decode_range [of l] by (auto simp: params)
  have h: "int (length ?out) = cntLt ?arr initialN"
    by (simp add: cntLt_def params)
  from encodeLoop_result [OF lt h, of 0 "int (length ?out)" initialBias ?out'] assms(1)
  obtain D where D: "e = ?out' @ D" "\<forall>c\<in>set D. digitUnit c"
    unfolding encode_def Let_def by (auto simp: error_def)
  have basic: "u \<in> set l \<and> uint u < 0x80" if "u \<in> set ?out" for u
  proof -
    from that obtain x where x: "x \<in> set ?arr" "x < 0x80" "u = stringFromCharCode x"
      by auto
    with ucs2decode_unit [of x l] obtain v where "v \<in> set l" "x = uint v" by auto
    with x show ?thesis by simp
  qed
  from assms(2) D(1) have "c \<in> set ?out \<or> c = delimiter \<or> c \<in> set D"
    by (auto split: if_splits)
  with basic D(2) show ?thesis by blast
qed

lemma cleanUnit_delimiter: "cleanUnit delimiter" "uint delimiter < 0x80"
  by (simp_all add: cleanUnit_def regexSeparators_def params)

lemma cleanUnit_digit: "digitUnit c \<Longrightarrow> cleanUnit c \<and> uint c < 0x80"
  by (auto simp: digitUnit_def cleanUnit_def regexSeparators_def)

lemma cleanUnit_xn: "\<forall>c\<in>set xn_prefix. cleanUnit c \<and> uint c < 0x80"
  by (simp add: xn_prefix_def cleanUnit_def regexSeparators_def)

lemma regexNonASCII_iff: "regexNonASCII s \<longleftrightarrow> (\<exists>c\<in>set s. 0x7F < uint c)"
  by (simp add: regexNonASCII_def list_ex_iff)

lemma toASCII_label_keep:
  assumes clean: "\<forall>c\<in>set l. cleanUnit c"
    and res: "(if regexNonASCII l then
                 (case encode l of None \<Rightarrow> None | Some (Inl e) \<Rightarrow> Some (Inl e)
                  | Some (Inr encoded) \<Rightarrow> Some (Inr (xn_prefix @ encoded)))
               else Some (Inr l)) = Some (Inr l')"
  shows "(\<forall>c\<in>set l'. cleanUnit c) \<and>
         (if regexNonASCII l' then
            (case encode l' of None \<Rightarrow> None | Some (Inl e) \<Rightarrow> Some (Inl e)
             | Some (Inr encoded) \<Rightarrow> Some (Inr (xn_prefix @ encoded)))
          else Some (Inr l')) = Some (Inr l')"
proof (cases "regexNonASCII l")
  case False
  with res have "l' = l" by simp
  with clean False show ?thesis by simp
next
  case True
  with res obtain e where e: "encode l = Some (Inr e)" "l' = xn_prefix @ e"
    by (auto split: option.splits sum.splits)
  have "cleanUnit c \<and> uint c < 0x80" if "c \<in> set l'" for c
  proof -
    from that e(2) have "c \<in> set xn_prefix \<or> c \<in> set e" by auto
    then show ?thesis
    proof
      assume "c \<in> set xn_prefix"
      then show ?thesis using cleanUnit_xn by blast
    next
      assume "c \<in> set e"
      from encode_units [OF e(1) this] show ?thesis
        using clean cleanUnit_delimiter cleanUnit_digit by blast
    qed
  qed
  then have "\<forall>c\<in>set l'. cleanUnit c" and "\<not> regexNonASCII l'"
    unfolding regexNonASCII_iff by fastforce+
  then show ?thesis by simp
qed

lemma toASCII_idempotent: "andThen (toASCII x) toASCII = toASCII x"
  unfolding toASCII_def
  by (rule mapDomain_idempotent) (rule toASCII_label_keep)

lemma mapDomain_unchanged_labels:
  assumes "\<forall>l\<in>set (domainLabels x). f l = Some (Inr l)"
  shows "andThen (mapDomain x f) (\<lambda>y. mapDomain y f) = mapDomain x f"
proof -
  let ?y = "localPart x @ join 0x2E (domainLabels x)"
  have 1: "map_cb f (domainLabels x) = Some (Inr (domainLabels x))"
    using assms by (rule map_cb_unchanged)
  then have y: "mapDomain x f = Some (Inr ?y)"
    by (simp add: mapDomain_parts joined_def prefixed_def)
  have "\<forall>l\<in>set (domainLabels x). \<forall>c\<in>set l. cleanUnit c"
    using domainLabels_clean by blast
  from rebuild [OF localPart_form domainLabels_not_Nil this]
  have re: "localPart ?y = localPart x" "domainLabels ?y = domainLabels x" by blast+
  have "mapDomain ?y f = Some (Inr ?y)"
    by (simp add: mapDomain_parts re 1 joined_def prefixed_def)
  with y show ?thesis by simp
qed

text \<open>
  Claim C7, as amended: \<open>toASCII\<close> is idempotent, also where it throws: the second
  call runs on the result of the first and changes nothing. \<open>toUnicode\<close> applied twice
  gives what it gives once when no label of the input starts with \<open>xn--\<close>.
\<close>

theorem idempotence:
  "andThen (toASCII x) toASCII = toASCII x
   \<and> ((\<forall>l\<in>set (domainLabels x). \<not> regexPunycode l)
        \<longrightarrow> andThen (toUnicode toLowerCase x) (toUnicode toLowerCase) = toUnicode toLowerCase x)"
proof -
  have "andThen (toUnicode toLowerCase x) (toUnicode toLowerCase) = toUnicode toLowerCase x"
    if "\<forall>l\<in>set (domainLabels x). \<not> regexPunycode l"
    unfolding toUnicode_def
    by (rule mapDomain_unchanged_labels) (use that in simp)
  with toASCII_idempotent [of x] show ?thesis by blast
qed

theorem idempotence_witness:
  "andThen (toASCII [0x75, 0x40, 0xFC, 0x2E, 0x64]) toASCII
     = Some (Inr [0x75, 0x40, 0x78, 0x6E, 0x2D, 0x2D, 0x74, 0x64, 0x61, 0x2E, 0x64])
   \<and> andThen (toUnicode asciiLowerCase [0x75, 0x40, 0xFC, 0x2E, 0x64]) (toUnicode asciiLowerCase)
     = Some (Inr [0x75, 0x40, 0xFC, 0x2E, 0x64])"
proof -
  let ?x = "[0x75, 0x40, 0xFC, 0x2E, 0x64] :: jsstring"
  have 1: "toASCII ?x = Some (Inr [0x75, 0x40, 0x78, 0x6E, 0x2D, 0x2D, 0x74, 0x64, 0x61, 0x2E, 0x64])"
    by code_simp
  have 2: "toUnicode asciiLowerCase ?x = Some (Inr ?x)"
    by code_simp
  have 3: "\<forall>l\<in>set (domainLabels ?x). \<not> regexPunycode l"
    by code_simp
  from idempotence [of ?x asciiLowerCase] 3
  have "andThen (toASCII ?x) toASCII = toASCII ?x"
    and "andThen (toUnicode asciiLowerCase ?x) (toUnicode asciiLowerCase) = toUnicode asciiLowerCase ?x"
    by blast+
  with 1 2 show ?thesis by simp
qed

text \<open>The claim as stated fails for \<open>toUnicode\<close>: \<open>"xn--xn--tda-"\<close> decodes to
  \<open>"xn--tda"\<close>, which decodes to \<open>"\xFC"\<close>.\<close>

theorem toUnicode_twice:
  "toUnicode asciiLowerCase [0x78, 0x6E, 0x2D, 0x2D, 0x78, 0x6E, 0x2D, 0x2D, 0x74, 0x64, 0x61, 0x2D]
     = Some (Inr [0x78, 0x6E, 0x2D, 0x2D, 0x74, 0x64, 0x61])
   \<and> andThen (toUnicode asciiLowerCase
                 [0x78, 0x6E, 0x2D, 0x2D, 0x78, 0x6E, 0x2D, 0x2D, 0x74, 0x64, 0x61, 0x2D])
         (toUnicode asciiLowerCase)
     = Some (Inr [0xFC])"
  by code_simp

section \<open>Bias adaptation is bounded\<close>

lemma adaptLoop_unfold:
  "adaptLoop delta k = (if delta > 455 then adaptLoop (delta div 35) (k + 36) else (delta, k))"
  by (subst adaptLoop.simps) (simp add: params sar32_def toInt32_def)

lemma adaptLoop_bound:
  "0 \<le> delta \<Longrightarrow> delta \<le> 455 * 35 ^ j \<Longrightarrow>
   0 \<le> fst (adaptLoop delta k) \<and> fst (adaptLoop delta k) \<le> 455
   \<and> k \<le> snd (adaptLoop delta k) \<and> snd (adaptLoop delta k) \<le> k + 36 * int j"
proof (induction j arbitrary: delta k)
  case 0
  then show ?case by (subst (1 2 3 4) adaptLoop_unfold) simp
next
  case (Suc j)
  show ?case
  proof (cases "delta > 455")
    case False
    with Suc.prems show ?thesis by (subst (1 2 3 4) adaptLoop_unfold) simp
  next
    case True
    have "delta div 35 \<le> (455 * 35 ^ Suc j) div 35"
      using Suc.prems(2) by (rule zdiv_mono1) simp
    then have le: "delta div 35 \<le> 455 * 35 ^ j" by simp
    have ge: "0 \<le> delta div 35" using Suc.prems(1) by (simp add: pos_imp_zdiv_nonneg_iff)
    have eq: "adaptLoop delta k = adaptLoop (delta div 35) (k + 36)"
      using True by (subst adaptLoop_unfold) simp
    from Suc.IH [OF ge le, of "k + 36"] show ?thesis
      unfolding eq by simp
  qed
qed

lemma adapt_bound:
  assumes "0 \<le> delta" "delta \<le> maxInt" "1 \<le> numPoints"
  shows "0 \<le> adapt delta numPoints firstTime \<and> adapt delta numPoints firstTime \<le> 216"
proof -
  define d1 where "d1 = (if firstTime then delta div damp else sar32 delta 1)"
  define d2 where "d2 = d1 + d1 div numPoints"
  have lt31: "delta < 2 ^ 31" using assms(2) by (simp add: params)
  have d1: "0 \<le> d1" "d1 \<le> 1073741823"
  proof -
    have "0 \<le> delta div 700" "delta div 700 \<le> 1073741823"
      using assms(1,2) by (simp_all add: params pos_imp_zdiv_nonneg_iff)
    moreover have "0 \<le> delta div 2" "delta div 2 \<le> 1073741823"
      using assms(1,2) by (simp_all add: params)
    ultimately show "0 \<le> d1" "d1 \<le> 1073741823"
      using sar32_half [OF assms(1) lt31] by (auto simp: d1_def params)
  qed
  have q: "0 \<le> d1 div numPoints" "d1 div numPoints \<le> d1"
    using d1(1) assms(3) zdiv_mono2 [of d1 1 numPoints]
    by (simp_all add: pos_imp_zdiv_nonneg_iff)
  have d2: "0 \<le> d2" "d2 \<le> 455 * 35 ^ 5"
    using d1 q by (simp_all add: d2_def)
  from adaptLoop_bound [OF d2, of 0]
  have L: "0 \<le> fst (adaptLoop d2 0)" "fst (adaptLoop d2 0) \<le> 455"
    "0 \<le> snd (adaptLoop d2 0)" "snd (adaptLoop d2 0) \<le> 180"
    by simp_all
  define d3 where "d3 = fst (adaptLoop d2 0)"
  define k where "k = snd (adaptLoop d2 0)"
  have eq: "adapt delta numPoints firstTime = k + 36 * d3 div (d3 + 38)"
    by (simp add: adapt_def Let_def d1_def d2_def d3_def k_def params case_prod_beta)
  have pos: "0 < d3 + 38" using L(1) by (simp add: d3_def)
  have "36 * d3 div (d3 + 38) \<le> 36 * (d3 + 38) div (d3 + 38)"
    using pos by (intro zdiv_mono1) simp_all
  also have "\<dots> = 36" using pos by (intro nonzero_mult_div_cancel_right) simp
  finally have up: "36 * d3 div (d3 + 38) \<le> 36" .
  have lo: "0 \<le> 36 * d3 div (d3 + 38)"
    using pos L(1) by (simp add: pos_imp_zdiv_nonneg_iff d3_def)
  show ?thesis
    unfolding eq using up lo L(3,4) by (simp add: k_def)
qed

lemma adapt_stale:
  assumes "0 \<le> delta" "delta \<le> maxInt" "delta div 2 < a" "a \<le> b"
  shows "adapt delta a False = adapt delta b False"
proof -
  have "delta < 2 ^ 31" using assms(2) by (simp add: params)
  then have d1: "sar32 delta 1 = delta div 2" using assms(1) by (intro sar32_half)
  have nn: "0 \<le> delta div 2" using assms(1) by simp
  have z: "(delta div 2) div a = 0" "(delta div 2) div b = 0"
    using nn assms(3,4) by (simp_all add: div_pos_pos_trivial)
  show ?thesis unfolding adapt_def d1 Let_def by (simp add: z)
qed

section \<open>Reading back a generalized variable-length integer\<close>

lemma le_div_int:
  fixes a b c :: int
  assumes "0 < b" "a * b \<le> c"
  shows "a \<le> c div b"
proof -
  have "a * b div b \<le> c div b" using assms by (intro zdiv_mono1) simp_all
  then show ?thesis using assms(1) by simp
qed

lemma encodeDigits_not_Nil [simp]: "encodeDigits q k bias \<noteq> []"
  by (subst encodeDigits.simps) (simp add: Let_def)

lemma encodeDigits_last:
  "q < threshold k bias \<Longrightarrow> encodeDigits q k bias = [stringFromCharCode (digitToBasic q 0)]"
  by (subst encodeDigits.simps) simp

lemma encodeDigits_more:
  "\<not> q < threshold k bias \<Longrightarrow>
   encodeDigits q k bias =
     stringFromCharCode (digitToBasic
       (threshold k bias + jsRem (q - threshold k bias) (base - threshold k bias)) 0)
     # encodeDigits ((q - threshold k bias) div (base - threshold k bias)) (k + base) bias"
  by (subst encodeDigits.simps) (simp add: Let_def)

lemma weight_step:
  assumes wk: "wkInv w k" and bias: "bias \<le> 234"
    and tw: "threshold k bias * w \<le> maxInt"
  shows "w * (base - threshold k bias) \<le> maxInt \<and> wkInv (w * (base - threshold k bias)) (k + base)"
proof -
  let ?t = "threshold k bias"
  note t = threshold_bounds [of k bias]
  from wk obtain j where j: "0 < w" "k = 36 * (int j + 1)" "w \<le> 35 ^ j"
    by (auto simp: wkInv_def)
  have w35: "w * (36 - ?t) \<le> 35 ^ Suc j"
  proof -
    have "w * (36 - ?t) \<le> 35 ^ j * 35"
      using j(1,3) t by (intro mult_mono) simp_all
    then show ?thesis by simp
  qed
  have inv: "wkInv (w * (base - ?t)) (k + base)"
    unfolding wkInv_def
  proof (intro conjI exI [of _ "Suc j"])
    show "0 < w * (base - ?t)" using j(1) t by (simp add: params)
    show "k + base = 36 * (int (Suc j) + 1)" using j(2) by (simp add: params)
    show "w * (base - ?t) \<le> 35 ^ Suc j" using w35 by (simp add: params)
  qed
  have "w * (36 - ?t) \<le> maxInt"
  proof (cases "18 \<le> ?t")
    case True
    then have "w * (36 - ?t) \<le> w * ?t" using j(1) by (intro mult_left_mono) simp_all
    with tw show ?thesis by (simp add: mult.commute)
  next
    case False
    then have "k < bias + 18" by (auto simp: threshold_def params split: if_splits)
    with bias j(2) have "j \<le> 5" by simp
    then have "(35::int) ^ Suc j \<le> 35 ^ 6" by (intro power_increasing) simp_all
    with w35 show ?thesis by (simp add: params)
  qed
  with inv show ?thesis by (simp add: params)
qed

lemma decodeDigits_encodeDigits:
  assumes "0 \<le> q" "0 \<le> i" "i + q * w \<le> maxInt" "wkInv w k" "bias \<le> 234"
  shows "decodeDigits (encodeDigits q k bias @ rest) i w k bias = Inr (i + q * w, rest)"
  using assms
proof (induction q k bias arbitrary: i w rule: encodeDigits.induct)
  case (1 q k bias)
  let ?t = "threshold k bias"
  note t = threshold_bounds [of k bias]
  have w: "0 < w" using "1.prems"(4) by (simp add: wkInv_def)
  show ?case
  proof (cases "q < ?t")
    case True
    have d: "basicToDigit (uint (stringFromCharCode (digitToBasic q 0))) = q"
      using "1.prems"(1) True t by (intro basicToDigit_digitToBasic) simp_all
    have "q * w \<le> maxInt - i" using "1.prems"(3) by simp
    then have "q \<le> (maxInt - i) div w" using w by (intro le_div_int)
    with True t show ?thesis
      by (simp add: encodeDigits_last decodeDigits_Cons d params)
  next
    case False
    let ?b = "36 - ?t"
    let ?d = "?t + (q - ?t) mod ?b"
    let ?q' = "(q - ?t) div ?b"
    have b: "0 < ?b" using t by simp
    have qt: "0 \<le> q - ?t" using False by simp
    have dr: "0 \<le> (q - ?t) mod ?b" "(q - ?t) mod ?b < ?b"
      using b by simp_all
    have d36: "0 \<le> ?d" "?d < 36" "?t \<le> ?d" using dr t by linarith+
    have q': "0 \<le> ?q'" using qt b by (simp add: pos_imp_zdiv_nonneg_iff)
    have split: "q = ?d + ?q' * ?b"
      using div_mult_mod_eq [of "q - ?t" ?b] by simp
    have dq: "?d \<le> q"
    proof -
      have "0 \<le> ?q' * ?b" using q' b by simp
      with split show ?thesis by linarith
    qed
    have dw: "?d * w \<le> q * w" using dq w by (intro mult_right_mono) simp_all
    have qw: "q * w \<le> maxInt - i" using "1.prems"(3) by simp
    have "?d * w \<le> maxInt - i" using dw qw by linarith
    then have chk1: "?d \<le> (maxInt - i) div w"
      by (rule le_div_int [OF w])
    have tw: "?t * w \<le> maxInt"
    proof -
      have "?t * w \<le> ?d * w" using d36(3) w by (intro mult_right_mono) simp_all
      with dw qw "1.prems"(2) show ?thesis by linarith
    qed
    from weight_step [OF "1.prems"(4,5) tw]
    have ws: "w * ?b \<le> maxInt" "wkInv (w * ?b) (k + 36)" by (simp_all add: params)
    have chk2: "w \<le> maxInt div ?b" using b ws(1) by (intro le_div_int)
    have i': "0 \<le> i + ?d * w"
    proof -
      have "0 \<le> ?d * w" using d36(1) w by simp
      with "1.prems"(2) show ?thesis by simp
    qed
    have total: "i + ?d * w + ?q' * (w * ?b) = i + q * w"
    proof -
      have "q * w = (?d + ?q' * ?b) * w" using split by simp
      then show ?thesis by (simp add: algebra_simps)
    qed
    have bound: "i + ?d * w + ?q' * (w * ?b) \<le> maxInt"
      unfolding total by (rule "1.prems"(3))
    have IH: "decodeDigits (encodeDigits ?q' (k + 36) bias @ rest) (i + ?d * w) (w * ?b) (k + 36) bias
        = Inr (i + ?d * w + ?q' * (w * ?b), rest)"
      using "1.IH" [OF refl False refl refl, of "i + ?d * w" "w * (base - ?t)"]
        q' i' bound ws(2) "1.prems"(5)
      by (simp add: params)
    have d: "basicToDigit (uint (stringFromCharCode
        (digitToBasic (?t + jsRem (q - ?t) (base - ?t)) 0))) = ?d"
      using d36 qt b by (simp add: jsRem_nonneg params basicToDigit_digitToBasic)
    show ?thesis
      unfolding encodeDigits_more [OF False] append_Cons decodeDigits_Cons d
      using d36 chk1 chk2 IH total by (simp add: params)
  qed
qed

lemma decodeLoop_emit:
  assumes "0 \<le> delta" "0 \<le> i" "i + delta \<le> maxInt" "bias \<le> 234"
    and "h = int (length H)" "i + delta = q * (h + 1) + p" "0 \<le> p" "p \<le> h" "0 \<le> q"
    and "n + q \<le> maxInt"
  shows "decodeLoop (encodeDigits delta base bias @ rest) i n bias H
       = decodeLoop rest (p + 1) (n + q) (adapt delta (h + 1) (i = 0)) (splice H p (n + q))"
proof -
  have wk: "wkInv 1 base" by (auto simp: wkInv_def params intro: exI [of _ 0])
  have dd: "decodeDigits (encodeDigits delta base bias @ rest) i 1 base bias = Inr (i + delta, rest)"
    using decodeDigits_encodeDigits [OF assms(1,2) _ wk assms(4), of rest] assms(3) by simp
  have ne: "encodeDigits delta base bias @ rest \<noteq> []" by simp
  have qd: "(i + delta) div (h + 1) = q"
    unfolding assms(6) using assms(7,8) by (simp add: div_pos_pos_trivial)
  have rm: "(i + delta) mod (h + 1) = p"
    unfolding assms(6) using assms(7,8) by (simp add: mod_pos_pos_trivial)
  have js: "jsRem (i + delta) (h + 1) = p"
    using assms(1,2,5) rm by (simp add: jsRem_nonneg)
  show ?thesis
    unfolding decodeLoop_step [OF ne dd] assms(5) [symmetric] qd js
    using assms(10) by simp
qed

section \<open>The encoder and the decoder in lock step\<close>

lemma cntLe_simps [simp]:
  "cntLe [] n = 0"
  "cntLe (c # cs) n = (if c \<le> n then 1 else 0) + cntLe cs n"
  by (simp_all add: cntLe_def)

lemma cnt_append [simp]:
  "cntLe (xs @ ys) n = cntLe xs n + cntLe ys n"
  "cntLt (xs @ ys) n = cntLt xs n + cntLt ys n"
  "cntEq (xs @ ys) n = cntEq xs n + cntEq ys n"
  by (simp_all add: cntLe_def cntLt_def cntEq_def)

lemma cnt_nonneg [simp]: "0 \<le> cntLe xs n" "0 \<le> cntLt xs n" "0 \<le> cntEq xs n"
  by (simp_all add: cntLe_def cntLt_def cntEq_def)

lemma cntLe_split: "cntLe xs n = cntLt xs n + cntEq xs n"
  by (induction xs) auto

lemma cnt_le_length: "cntLe xs n \<le> int (length xs)" "cntLt xs n \<le> int (length xs)"
  by (simp_all add: cntLe_def cntLt_def)

lemma cntLt_mono: "n \<le> m \<Longrightarrow> cntLt xs n \<le> cntLt xs m"
  by (induction xs) auto

lemma cntLt_mem: "n \<in> set xs \<Longrightarrow> cntLt xs n < int (length xs)"
  by (induction xs) (auto simp: le_less_trans [OF cnt_le_length(2)] intro: le_less_trans)

lemma length_handled: "int (length (handled n pre suf)) = cntLe pre n + cntLt suf n"
  by (simp add: handled_def cntLe_def cntLt_def)

lemma handled_skip_lt: "c < n \<Longrightarrow> handled n (pre @ [c]) suf = handled n pre (c # suf)"
  by (simp add: handled_def)

lemma handled_skip_gt: "n < c \<Longrightarrow> handled n (pre @ [c]) suf = handled n pre (c # suf)"
  by (simp add: handled_def)

lemma handled_emit:
  "handled n (pre @ [n]) suf = splice (handled n pre (n # suf)) (cntLe pre n) n"
  by (simp add: handled_def splice_def cntLe_def)

text \<open>The size of the numbers, for at most 1927 code points up to \<open>0x10FFFF\<close>.\<close>

lemma product_bound:
  fixes a b :: int
  assumes "0 \<le> a" "a \<le> 1113983" "0 \<le> b" "b \<le> 1927"
  shows "a * b \<le> 2146645241"
proof -
  have "a * b \<le> 1113983 * 1927" using assms by (intro mult_mono) simp_all
  then show ?thesis by simp
qed

lemma simInv_skip_lt:
  assumes "simInv arr bl n pre (c # suf) delta h i nd" "c < n"
  shows "simInv arr bl n (pre @ [c]) suf (delta + 1) h i nd"
  using assms unfolding simInv_def by (auto simp: algebra_simps)

lemma simInv_skip_gt:
  assumes "simInv arr bl n pre (c # suf) delta h i nd" "n < c"
  shows "simInv arr bl n (pre @ [c]) suf delta h i nd"
  using assms unfolding simInv_def by (auto simp: algebra_simps)

lemma simInvD:
  assumes "simInv arr bl n pre suf delta h i nd"
  shows "arr = pre @ suf" "n \<in> set arr" "h = cntLe pre n + cntLt suf n"
    "delta = (n - nd) * (h + 1) + cntLe pre n - i" "128 \<le> nd" "nd \<le> n" "0 \<le> i" "i \<le> h"
    "nd = n \<longrightarrow> i \<le> cntLe pre n" "i = 0 \<and> h = bl \<or> 0 < i \<and> bl < h"
    "cntEq pre n = 0 \<or> nd = n \<and> cntLe pre n - i \<le> cntLt pre n"
  using assms unfolding simInv_def by blast+

lemma simInv_delta_nonneg:
  assumes "simInv arr bl n pre suf delta h i nd"
  shows "0 \<le> delta"
proof (cases "nd = n")
  case True
  note f = simInvD [OF assms]
  from f(4,9) True show ?thesis by simp
next
  case False
  note f = simInvD [OF assms]
  have lt: "1 \<le> n - nd" using False f(6) by simp
  have h: "0 \<le> h + 1" using f(7,8) by simp
  define X where "X = (n - nd) * (h + 1)"
  have "1 * (h + 1) \<le> (n - nd) * (h + 1)" using lt h by (rule mult_right_mono)
  then have "h + 1 \<le> X" by (simp add: X_def)
  moreover have "delta = X + cntLe pre n - i" using f(4) by (simp add: X_def)
  ultimately show ?thesis using f(8) cnt_nonneg(1) [of pre n] by linarith
qed

lemma simInv_first_in_pass:
  assumes "simInv arr bl n pre suf delta h i nd" "nd \<noteq> n"
  shows "cntEq pre n = 0" "n \<in> set suf" "h + 1 \<le> int (length arr)"
proof -
  note f = simInvD [OF assms(1)]
  from f(11) assms(2) show e: "cntEq pre n = 0" by blast
  then have "n \<notin> set pre" using cntEq_pos [of n pre] by auto
  with f(1,2) show suf: "n \<in> set suf" by auto
  from cntLt_mem [OF suf] cnt_le_length(1) [of pre n] f(3)
  show "h + 1 \<le> int (length arr)" unfolding f(1) by simp
qed

lemma simInv_unhandled:
  assumes "simInv arr bl n pre (n # suf) delta h i nd"
  shows "h + 1 \<le> int (length arr)"
proof -
  note f = simInvD [OF assms]
  from cnt_le_length(1) [of pre n] cnt_le_length(2) [of suf n] f(3)
  show ?thesis unfolding f(1) by simp
qed

lemma simInv_target_bound:
  assumes top: "\<forall>c\<in>set arr. c \<le> 0x10FFFF" and len: "length arr \<le> 1927"
    and inv: "simInv arr bl n pre suf delta h i nd"
    and room: "h + 1 \<le> int (length arr)"
  shows "(n - nd) * (h + 1) \<le> 2146645241"
proof -
  note f = simInvD [OF inv]
  from top f(2) have "n \<le> 0x10FFFF" by blast
  with f(5,6) have a: "0 \<le> n - nd" "n - nd \<le> 1113983" by simp_all
  have b: "0 \<le> h + 1" "h + 1 \<le> 1927" using f(7,8) room len by simp_all
  from product_bound [OF a b] show ?thesis .
qed

lemma simInv_no_overflow_lt:
  assumes top: "\<forall>c\<in>set arr. c \<le> 0x10FFFF" and len: "length arr \<le> 1927"
    and inv: "simInv arr bl n pre suf delta h i nd"
  shows "\<not> delta + 1 > maxInt"
proof -
  note f = simInvD [OF inv]
  have p: "cntLe pre n \<le> 1927"
    using cnt_le_length(1) [of pre n] len unfolding f(1) by simp
  show ?thesis
  proof (cases "nd = n")
    case True
    with f(4,7) p show ?thesis by (simp add: params)
  next
    case False
    note first = simInv_first_in_pass [OF inv False]
    from simInv_target_bound [OF top len inv first(3)] f(4,7) p
    show ?thesis by (simp add: params)
  qed
qed

lemma simInv_emit:
  assumes top: "\<forall>c\<in>set arr. c \<le> 0x10FFFF" and len: "length arr \<le> 1927"
    and bl: "bl = cntLt arr 128"
    and inv: "simInv arr bl n pre (n # suf) delta h i nd"
  shows "0 \<le> delta" "i + delta \<le> maxInt" "i + delta = (n - nd) * (h + 1) + cntLe pre n"
    "cntLe pre n \<le> h" "nd + (n - nd) \<le> maxInt" "0 \<le> n - nd" "1 \<le> h + 1"
    "adapt delta (cntLt arr n + 1) (h = bl) = adapt delta (h + 1) (i = 0)"
    "simInv arr bl n (pre @ [n]) suf 0 (h + 1) (cntLe pre n + 1) n"
proof -
  note room = simInv_unhandled [OF inv]
  note f = simInvD [OF inv]
  have h: "h = cntLe pre n + cntLt suf n" using f(3) by simp
  show d0: "0 \<le> delta" using inv by (rule simInv_delta_nonneg)
  show sum: "i + delta = (n - nd) * (h + 1) + cntLe pre n" using f(4) by simp
  show p: "cntLe pre n \<le> h" using h by simp
  have p': "cntLe pre n \<le> 1926" using p room len by simp
  from simInv_target_bound [OF top len inv room]
  show imax: "i + delta \<le> maxInt" unfolding sum using p' by (simp add: params)
  from top f(2) have "n \<le> 0x10FFFF" by blast
  then show "nd + (n - nd) \<le> maxInt" by (simp add: params)
  show "0 \<le> n - nd" using f(6) by simp
  show "1 \<le> h + 1" using f(7,8) by simp
  have hbl: "bl \<le> h" using f(10) by auto
  have ft: "(h = bl) = (i = 0)" using f(10) by auto
  have dmax: "delta \<le> maxInt" using imax f(7) by simp
  have arrn: "cntLt arr n = cntLt pre n + cntLt suf n" unfolding f(1) by simp
  show "adapt delta (cntLt arr n + 1) (h = bl) = adapt delta (h + 1) (i = 0)"
  proof (cases "cntEq pre n = 0")
    case True
    then have "cntLe pre n = cntLt pre n" by (simp add: cntLe_split)
    then have "h = cntLt arr n" using h arrn by simp
    with ft show ?thesis by simp
  next
    case False
    with f(11) have nd: "nd = n" and small: "cntLe pre n - i \<le> cntLt pre n" by simp_all
    have e: "1 \<le> cntEq pre n" using False cnt_nonneg(3) [of pre n] by linarith
    have m: "cntLt arr 128 \<le> cntLt arr n" using f(5,6) by (intro cntLt_mono) simp
    have h': "h = cntLt pre n + cntEq pre n + cntLt suf n"
      using h by (simp add: cntLe_split)
    have "bl < h" using m arrn h' e bl by linarith
    then have nft: "\<not> h = bl" "\<not> i = 0" using ft by simp_all
    have le: "cntLt arr n + 1 \<le> h + 1" using arrn h' e by linarith
    have "delta = cntLe pre n - i" using f(4) nd by simp
    then have dl: "delta \<le> cntLt arr n"
      using small arrn cnt_nonneg(2) [of suf n] by linarith
    have "delta div 2 \<le> delta" using d0 by simp
    with dl have half: "delta div 2 < cntLt arr n + 1" by simp
    from adapt_stale [OF d0 dmax half le] nft show ?thesis by simp
  qed
  show "simInv arr bl n (pre @ [n]) suf 0 (h + 1) (cntLe pre n + 1) n"
    unfolding simInv_def
  proof (intro conjI)
    show "arr = (pre @ [n]) @ suf" using f(1) by simp
    show "n \<in> set arr" by (rule f(2))
    show "h + 1 = cntLe (pre @ [n]) n + cntLt suf n" using h by simp
    show "0 = (n - n) * (h + 1 + 1) + cntLe (pre @ [n]) n - (cntLe pre n + 1)" by simp
    show "128 \<le> n" using f(5,6) by simp
    show "n \<le> n" by simp
    show "0 \<le> cntLe pre n + 1" by (simp add: add_nonneg_nonneg)
    show "cntLe pre n + 1 \<le> h + 1" using p by simp
    show "n = n \<longrightarrow> cntLe pre n + 1 \<le> cntLe (pre @ [n]) n" by simp
    show "cntLe pre n + 1 = 0 \<and> h + 1 = bl \<or> 0 < cntLe pre n + 1 \<and> bl < h + 1"
      using hbl cnt_nonneg(1) [of pre n] by simp
    show "cntEq (pre @ [n]) n = 0
        \<or> n = n \<and> cntLe (pre @ [n]) n - (cntLe pre n + 1) \<le> cntLt (pre @ [n]) n"
      by simp
  qed
qed

section \<open>A pass of the encoder, and the loop, read back by the decoder\<close>

lemma pass_sim:
  assumes top: "\<forall>c\<in>set arr. c \<le> 0x10FFFF" and len: "length arr \<le> 1927"
    and bl: "bl = cntLt arr 128"
    and inv: "simInv arr bl n pre suf delta h i nd" and bias: "bias \<le> 234"
  shows "\<exists>delta' bias' h' D i' nd'.
     encodePass suf n (cntLt arr n + 1) bl (delta, bias, h, out) = Inr (delta', bias', h', out @ D)
     \<and> simInv arr bl n arr [] delta' h' i' nd' \<and> bias' \<le> 234 \<and> (\<forall>c\<in>set D. digitUnit c)
     \<and> (\<forall>rest. decodeLoop (D @ rest) i nd bias (handled n pre suf)
                = decodeLoop rest i' nd' bias' (handled n arr []))"
  using inv bias
proof (induction suf arbitrary: pre delta bias h out i nd)
  case Nil
  from simInvD(1) [OF Nil.prems(1)] have pre: "pre = arr" by simp
  show ?case
  proof (intro exI conjI)
    show "encodePass [] n (cntLt arr n + 1) bl (delta, bias, h, out) = Inr (delta, bias, h, out @ [])"
      by simp
    show "simInv arr bl n arr [] delta h i nd" using Nil.prems(1) pre by simp
    show "bias \<le> 234" by (rule Nil.prems(2))
    show "\<forall>c\<in>set []. digitUnit c" by simp
    show "\<forall>rest. decodeLoop ([] @ rest) i nd bias (handled n pre [])
        = decodeLoop rest i nd bias (handled n arr [])"
      using pre by simp
  qed
next
  case (Cons c suf)
  note inv = Cons.prems(1)
  note f = simInvD [OF inv]
  consider (lt) "c < n" | (eq) "c = n" | (gt) "n < c" by linarith
  then show ?case
  proof cases
    case lt
    have step: "encodePass (c # suf) n (cntLt arr n + 1) bl (delta, bias, h, out)
        = encodePass suf n (cntLt arr n + 1) bl (delta + 1, bias, h, out)"
      using lt simInv_no_overflow_lt [OF top len inv] by (simp add: encodePass_Cons)
    from Cons.IH [OF simInv_skip_lt [OF inv lt] Cons.prems(2), of out]
    show ?thesis unfolding step handled_skip_lt [OF lt] .
  next
    case gt
    have step: "encodePass (c # suf) n (cntLt arr n + 1) bl (delta, bias, h, out)
        = encodePass suf n (cntLt arr n + 1) bl (delta, bias, h, out)"
      using gt by (simp add: encodePass_Cons)
    from Cons.IH [OF simInv_skip_gt [OF inv gt] Cons.prems(2), of out]
    show ?thesis unfolding step handled_skip_gt [OF gt] .
  next
    case eq
    note inv' = inv [unfolded eq]
    note e = simInv_emit [OF top len bl inv']
    let ?digs = "encodeDigits delta base bias"
    let ?bias' = "adapt delta (cntLt arr n + 1) (h = bl)"
    let ?p = "cntLe pre n"
    let ?H = "handled n pre (n # suf)"
    have dmax: "delta \<le> maxInt" using e(2) f(7) by simp
    have b': "?bias' \<le> 234"
      using adapt_bound [OF e(1) dmax, of "cntLt arr n + 1" "h = bl"] by simp
    have step: "encodePass (c # suf) n (cntLt arr n + 1) bl (delta, bias, h, out)
        = encodePass suf n (cntLt arr n + 1) bl (0, ?bias', h + 1, out @ ?digs)"
      using eq by (simp add: encodePass_Cons)
    from Cons.IH [OF e(9) b', of "out @ ?digs"]
    obtain delta' bias' h' D' i' nd' where r:
      "encodePass suf n (cntLt arr n + 1) bl (0, ?bias', h + 1, out @ ?digs)
         = Inr (delta', bias', h', (out @ ?digs) @ D')"
      "simInv arr bl n arr [] delta' h' i' nd'" "bias' \<le> 234" "\<forall>c\<in>set D'. digitUnit c"
      "\<forall>rest. decodeLoop (D' @ rest) (?p + 1) n ?bias' (handled n (pre @ [n]) suf)
          = decodeLoop rest i' nd' bias' (handled n arr [])"
      by blast
    have hlen: "h = int (length ?H)"
      using f(3) unfolding eq by (simp add: length_handled)
    have emit: "decodeLoop (?digs @ rest) i nd bias ?H
        = decodeLoop rest (?p + 1) n ?bias' (handled n (pre @ [n]) suf)" for rest
      using decodeLoop_emit [OF e(1) f(7) e(2) Cons.prems(2) hlen e(3) cnt_nonneg(1) e(4) e(6) e(5),
          of rest]
      by (simp add: e(8) handled_emit)
    show ?thesis
    proof (intro exI conjI)
      show "encodePass (c # suf) n (cntLt arr n + 1) bl (delta, bias, h, out)
          = Inr (delta', bias', h', out @ (?digs @ D'))"
        unfolding step r(1) by simp
      show "simInv arr bl n arr [] delta' h' i' nd'" by (rule r(2))
      show "bias' \<le> 234" by (rule r(3))
      show "\<forall>c\<in>set (?digs @ D'). digitUnit c"
        using encodeDigits_units [OF e(1), of base bias] r(4) by auto
      show "\<forall>rest. decodeLoop ((?digs @ D') @ rest) i nd bias (handled n pre (c # suf))
          = decodeLoop rest i' nd' bias' (handled n arr [])"
        unfolding eq using emit r(5) by simp
    qed
  qed
qed

lemma headInvD:
  assumes "headInv arr bl n delta h i nd"
  shows "h = cntLt arr n" "delta = (n - nd) * (h + 1) - i" "128 \<le> nd" "nd \<le> n" "0 \<le> i"
    "i \<le> h" "nd = n \<longrightarrow> i = 0" "i = 0 \<and> h = bl \<or> 0 < i \<and> bl < h"
  using assms unfolding headInv_def by blast+

lemma filter_gap:
  assumes "n \<le> m" "\<forall>c\<in>set arr. n \<le> c \<longrightarrow> m \<le> c"
  shows "filter (\<lambda>c. c < m) arr = filter (\<lambda>c. c < (n :: int)) arr"
proof (rule filter_cong [OF refl])
  fix x assume "x \<in> set arr"
  with assms(2) have "n \<le> x \<longrightarrow> m \<le> x" by blast
  with assms(1) show "(x < m) = (x < n)" by auto
qed

lemma filter_all_lt:
  assumes "cntLt arr n = int (length arr)"
  shows "filter (\<lambda>c. c < n) arr = arr"
proof -
  have "\<forall>c\<in>set arr. c < n"
  proof (rule ccontr)
    assume "\<not> (\<forall>c\<in>set arr. c < n)"
    then obtain c where "c \<in> set arr" "\<not> c < n" by blast
    then have "length (filter (\<lambda>c. c < n) arr) < length arr" by (rule length_filter_less)
    with assms show False by (simp add: cntLt_def)
  qed
  then show ?thesis by simp
qed

lemma head_to_pass:
  assumes hd: "headInv arr bl n delta h i nd"
    and m: "m \<in> set arr" "n \<le> m" "\<forall>c\<in>set arr. n \<le> c \<longrightarrow> m \<le> c"
  shows "simInv arr bl m [] arr (delta + (m - n) * (h + 1)) h i nd"
proof -
  note f = headInvD [OF hd]
  have gap: "cntLt arr m = cntLt arr n" using m(2,3) by (rule cntLt_gap)
  show ?thesis
    unfolding simInv_def
  proof (intro conjI)
    show "arr = [] @ arr" by simp
    show "m \<in> set arr" by (rule m(1))
    show "h = cntLe [] m + cntLt arr m" using f(1) gap by simp
    show "delta + (m - n) * (h + 1) = (m - nd) * (h + 1) + cntLe [] m - i"
      using f(2) by (simp add: algebra_simps)
    show "128 \<le> nd" by (rule f(3))
    show "nd \<le> m" using f(4) m(2) by simp
    show "0 \<le> i" by (rule f(5))
    show "i \<le> h" by (rule f(6))
    show "nd = m \<longrightarrow> i \<le> cntLe [] m" using f(4,7) m(2) by auto
    show "i = 0 \<and> h = bl \<or> 0 < i \<and> bl < h" by (rule f(8))
    show "cntEq [] m = 0 \<or> nd = m \<and> cntLe [] m - i \<le> cntLt [] m" by simp
  qed
qed

lemma pass_to_head:
  assumes inv: "simInv arr bl m arr [] delta h i nd"
  shows "headInv arr bl (m + 1) (delta + 1) h i nd"
proof -
  note f = simInvD [OF inv]
  have h: "h = cntLe arr m" using f(3) by simp
  show ?thesis
    unfolding headInv_def
  proof (intro conjI)
    show "h = cntLt arr (m + 1)" using h by (simp add: cntLt_Suc cntLe_split)
    show "delta + 1 = (m + 1 - nd) * (h + 1) - i"
      using f(4) h by (simp add: algebra_simps)
    show "128 \<le> nd" by (rule f(5))
    show "nd \<le> m + 1" using f(6) by simp
    show "0 \<le> i" by (rule f(7))
    show "i \<le> h" by (rule f(8))
    show "nd = m + 1 \<longrightarrow> i = 0" using f(6) by simp
    show "i = 0 \<and> h = bl \<or> 0 < i \<and> bl < h" by (rule f(10))
  qed
qed

lemma head_no_overflow:
  assumes top: "\<forall>c\<in>set arr. c \<le> 0x10FFFF" and len: "length arr \<le> 1927"
    and hd: "headInv arr bl n delta h i nd"
    and m: "m \<in> set arr" "n \<le> m" and room: "h < int (length arr)"
  shows "\<not> m - n > (maxInt - delta) div (h + 1)"
proof -
  note f = headInvD [OF hd]
  from top m(1) have "m \<le> 0x10FFFF" by blast
  with f(3,4) m(2) have a: "0 \<le> m - nd" "m - nd \<le> 1113983" by simp_all
  have b: "0 \<le> h + 1" "h + 1 \<le> 1927" using f(5,6) room len by simp_all
  have "(m - n) * (h + 1) + delta = (m - nd) * (h + 1) - i"
    using f(2) by (simp add: algebra_simps)
  with product_bound [OF a b] f(5) have "(m - n) * (h + 1) \<le> maxInt - delta"
    by (simp add: params)
  moreover have "0 < h + 1" using f(5,6) by simp
  ultimately have "m - n \<le> (maxInt - delta) div (h + 1)" by (intro le_div_int)
  then show ?thesis by simp
qed

lemma loop_sim:
  assumes top: "\<forall>c\<in>set arr. c \<le> 0x10FFFF" and len: "length arr \<le> 1927"
    and bl: "bl = cntLt arr 128"
    and hd: "headInv arr bl n delta h i nd" and bias: "bias \<le> 234"
  shows "\<exists>D. encodeLoop arr bl n delta bias h out = Some (Inr (out @ D))
           \<and> (\<forall>c\<in>set D. digitUnit c)
           \<and> decodeLoop D i nd bias (filter (\<lambda>c. c < n) arr) = Inr arr"
  using hd bias
proof (induction "nat (int (length arr) - h)" arbitrary: n delta bias h out i nd rule: less_induct)
  case less
  note hd = less.prems(1)
  note f = headInvD [OF hd]
  show ?case
  proof (cases "h < int (length arr)")
    case False
    with f(1) cntLt_le_length [of arr n] have "cntLt arr n = int (length arr)" by simp
    then have all: "filter (\<lambda>c. c < n) arr = arr" by (rule filter_all_lt)
    have "encodeLoop arr bl n delta bias h out = Some (Inr (out @ []))"
      using False by (subst encodeLoop.simps) simp
    then show ?thesis using all by (intro exI [of _ "[]"]) simp
  next
    case True
    let ?m = "nextM arr n maxInt"
    have lt: "\<forall>c\<in>set arr. c < maxInt" using top by (auto simp: params)
    have "\<exists>c\<in>set arr. n \<le> c"
    proof (rule ccontr)
      assume "\<not> (\<exists>c\<in>set arr. n \<le> c)"
      then have "\<forall>c\<in>set arr. c < n" by auto
      then have "cntLt arr n = int (length arr)" by (rule cntLt_all)
      with True f(1) show False by simp
    qed
    with nextM_props [OF lt]
    have m: "?m \<in> set arr" "n \<le> ?m" "\<forall>c\<in>set arr. n \<le> c \<longrightarrow> ?m \<le> c"
      by blast+
    note chk = head_no_overflow [OF top len hd m(1,2) True]
    note inv0 = head_to_pass [OF hd m]
    from pass_sim [OF top len bl inv0 less.prems(2), of out]
    obtain delta' bias' h' D i' nd' where r:
      "encodePass arr ?m (cntLt arr ?m + 1) bl (delta + (?m - n) * (h + 1), bias, h, out)
         = Inr (delta', bias', h', out @ D)"
      "simInv arr bl ?m arr [] delta' h' i' nd'" "bias' \<le> 234" "\<forall>c\<in>set D. digitUnit c"
      "\<forall>rest. decodeLoop (D @ rest) i nd bias (handled ?m [] arr)
          = decodeLoop rest i' nd' bias' (handled ?m arr [])"
      by blast
    have hp1: "cntLt arr ?m + 1 = h + 1"
      using cntLt_gap [OF m(2,3)] f(1) by simp
    note hd' = pass_to_head [OF r(2)]
    have h': "h' = cntLt arr (?m + 1)" by (rule headInvD(1) [OF hd'])
    have "0 < cntEq arr ?m" using m(1) by (rule cntEq_pos)
    then have "h < h'" unfolding h' using cntLt_gap [OF m(2,3)] f(1) by (simp add: cntLt_Suc)
    moreover have "h' \<le> int (length arr)" unfolding h' by (rule cntLt_le_length)
    ultimately have dec: "nat (int (length arr) - h') < nat (int (length arr) - h)" by simp
    from less.hyps [OF dec hd' r(3), of "out @ D"]
    obtain D2 where r2:
      "encodeLoop arr bl (?m + 1) (delta' + 1) bias' h' (out @ D) = Some (Inr ((out @ D) @ D2))"
      "\<forall>c\<in>set D2. digitUnit c"
      "decodeLoop D2 i' nd' bias' (filter (\<lambda>c. c < ?m + 1) arr) = Inr arr"
      by blast
    have enc: "encodeLoop arr bl n delta bias h out = Some (Inr (out @ (D @ D2)))"
      using True chk r(1) [unfolded hp1] r2(1)
      by (subst encodeLoop.simps) (simp add: Let_def)
    have "decodeLoop (D @ D2) i nd bias (filter (\<lambda>c. c < n) arr) = Inr arr"
      using r(5) [rule_format, of D2] r2(3)
      by (simp add: handled_def filter_gap [OF m(2,3)])
    with enc r(4) r2(2) show ?thesis
      by (intro exI [of _ "D @ D2"]) auto
  qed
qed

section \<open>Surrogate pairs\<close>

lemma and_3FF: "x AND 0x3FF = x mod 1024" for x :: int
proof -
  have "(0x3FF :: int) = mask 10" by (simp add: mask_eq_exp_minus_1)
  then have "x AND 0x3FF = take_bit 10 x" by (simp only: take_bit_eq_mask)
  then show ?thesis by (simp add: take_bit_eq_mod)
qed

lemma and_FC00: "x AND 0xFC00 = 1024 * ((x div 1024) mod 64)" for x :: int
proof -
  have "(0xFC00 :: int) = mask (6 + 10) AND NOT (mask 10)"
    by (simp add: mask_eq_exp_minus_1)
  then have "x AND 0xFC00 = x AND mask (6 + 10) AND NOT (mask 10)"
    by (simp only: and.assoc)
  also have "\<dots> = push_bit 10 (take_bit 6 (drop_bit 10 x))"
    by (rule slice_eq_mask [symmetric])
  finally show ?thesis
    by (simp add: push_bit_eq_mult take_bit_eq_mod drop_bit_eq_div)
qed

lemma div_1024_iff:
  fixes x k :: int
  shows "x div 1024 = k \<longleftrightarrow> k * 1024 \<le> x \<and> x < k * 1024 + 1024"
proof
  assume "x div 1024 = k"
  then have "x = k * 1024 + x mod 1024" using div_mult_mod_eq [of x 1024] by simp
  moreover have "0 \<le> x mod 1024" "x mod 1024 < 1024" by simp_all
  ultimately show "k * 1024 \<le> x \<and> x < k * 1024 + 1024" by linarith
next
  assume a: "k * 1024 \<le> x \<and> x < k * 1024 + 1024"
  define r where "r = x - k * 1024"
  have r: "0 \<le> r" "r < 1024" and x: "x = r + k * 1024" using a by (simp_all add: r_def)
  show "x div 1024 = k" unfolding x using r by (simp add: div_pos_pos_trivial)
qed

lemma mod_1024_offset:
  fixes x k :: int
  assumes "k * 1024 \<le> x" "x < k * 1024 + 1024"
  shows "x mod 1024 = x - k * 1024"
proof -
  define r where "r = x - k * 1024"
  have r: "0 \<le> r" "r < 1024" and x: "x = r + k * 1024" using assms by (simp_all add: r_def)
  show ?thesis unfolding x using r by (simp add: mod_pos_pos_trivial)
qed

lemma lowSurrogate_and: "lowSurrogate e \<longleftrightarrow> uint e AND 0xFC00 = 0xDC00"
proof -
  have r: "0 \<le> uint e" "uint e < 65536" by (rule uint16_range)+
  then have "uint e div 1024 < 64" by simp
  moreover have "0 \<le> uint e div 1024" by (simp add: pos_imp_zdiv_nonneg_iff)
  ultimately have m: "(uint e div 1024) mod 64 = uint e div 1024" by simp
  have "uint e AND 0xFC00 = 0xDC00 \<longleftrightarrow> uint e div 1024 = 55"
    unfolding and_FC00 m by simp
  also have "\<dots> \<longleftrightarrow> 0xDC00 \<le> uint e \<and> uint e \<le> 0xDFFF"
    unfolding div_1024_iff by auto
  finally show ?thesis by (simp add: lowSurrogate_def)
qed

lemma highSurrogate_and:
  assumes "highSurrogate v"
  shows "uint v AND 0x3FF = uint v - 0xD800"
proof -
  from assms have r: "54 * 1024 \<le> uint v" "uint v < 54 * 1024 + 1024"
    by (simp_all add: highSurrogate_def)
  from mod_1024_offset [OF r] show ?thesis unfolding and_3FF by simp
qed

lemma lowSurrogate_and_3FF:
  assumes "lowSurrogate e"
  shows "uint e AND 0x3FF = uint e - 0xDC00"
proof -
  from assms have r: "55 * 1024 \<le> uint e" "uint e < 55 * 1024 + 1024"
    by (simp_all add: lowSurrogate_def)
  from mod_1024_offset [OF r] show ?thesis unfolding and_3FF by simp
qed

lemma word_of_uint16 [simp]: "word_of_int (uint v) = (v :: 16 word)"
  by simp

lemma fromCodePoint_pair:
  assumes "highSurrogate v" "lowSurrogate e" "fromCodePoint cps = Inr s"
  shows "fromCodePoint ((push_bit 10 (uint v AND 0x3FF) + (uint e AND 0x3FF) + 0x10000) # cps)
       = Inr (v # e # s)"
proof -
  define a where "a = uint v - 0xD800"
  define b where "b = uint e - 0xDC00"
  have a: "0 \<le> a" "a \<le> 1023" and b: "0 \<le> b" "b \<le> 1023"
    using assms(1,2) by (simp_all add: a_def b_def highSurrogate_def lowSurrogate_def)
  define cp where "cp = push_bit 10 (uint v AND 0x3FF) + (uint e AND 0x3FF) + 0x10000"
  have cp: "cp = a * 1024 + b + 0x10000"
    unfolding cp_def highSurrogate_and [OF assms(1)] lowSurrogate_and_3FF [OF assms(2)]
    by (simp add: push_bit_eq_mult a_def b_def)
  have "a * 1024 \<le> 1023 * 1024" using a by (intro mult_right_mono) simp_all
  then have range: "0xFFFF < cp" "cp \<le> 0x10FFFF" using a b unfolding cp by simp_all
  have d: "(cp - 0x10000) div 0x400 = a" and m: "(cp - 0x10000) mod 0x400 = b"
    unfolding cp using b by simp_all
  have hi: "(word_of_int a + 0xD800 :: 16 word) = v"
    and lo: "(word_of_int b + 0xDC00 :: 16 word) = e"
    by (simp_all add: a_def b_def)
  show ?thesis
    unfolding cp_def [symmetric]
    using range assms(3) by (simp add: d m hi lo)
qed

lemma fromCodePoint_unit:
  assumes "fromCodePoint cps = Inr s"
  shows "fromCodePoint (uint (v :: 16 word) # cps) = Inr (v # s)"
  using assms uint16_range [of v] by simp

lemma fromCodePoint_ucs2decode:
  "wellFormed s \<Longrightarrow> fromCodePoint (ucs2decode s) = Inr s"
proof (induction s rule: wellFormed.induct)
  case 1
  show ?case by simp
next
  case (2 v)
  show ?case using fromCodePoint_unit [of "[]" "[]" v] by simp
next
  case (3 v e rest)
  show ?case
  proof (cases "highSurrogate v")
    case True
    with "3.prems" have low: "lowSurrogate e" and wf: "wellFormed rest" by simp_all
    have eq: "ucs2decode (v # e # rest)
        = (push_bit 10 (uint v AND 0x3FF) + (uint e AND 0x3FF) + 0x10000) # ucs2decode rest"
      using True low by (intro ucs2decode_pair) (simp_all add: highSurrogate_def lowSurrogate_and)
    show ?thesis
      unfolding eq using True low "3.IH"(1) [OF True wf] by (rule fromCodePoint_pair)
  next
    case False
    with "3.prems" have wf: "wellFormed (e # rest)" by simp
    from False have "\<not> (0xD800 \<le> uint v \<and> uint v \<le> 0xDBFF \<and> uint e AND 0xFC00 = 0xDC00)"
      by (auto simp: highSurrogate_def)
    then have eq: "ucs2decode (v # e # rest) = uint v # ucs2decode (e # rest)"
      by (rule ucs2decode_single)
    show ?thesis
      unfolding eq using "3.IH"(2) [OF False wf] by (rule fromCodePoint_unit)
  qed
qed

section \<open>The round trip (claim C1)\<close>

lemma copyBasic_basics:
  "\<forall>c\<in>set xs. 0 \<le> c \<and> c < 0x80 \<Longrightarrow>
   copyBasic (map stringFromCharCode xs) acc = Inr (acc @ xs)"
  by (induction xs arbitrary: acc) (simp_all add: uint_stringFromCharCode)

lemma digitUnit_not_delimiter: "digitUnit c \<Longrightarrow> c \<noteq> delimiter"
  by (auto simp: digitUnit_def params)

lemma decode_encoded:
  assumes basics: "\<forall>c\<in>set bs. 0 \<le> c \<and> c < 0x80"
    and digits: "\<forall>c\<in>set D. digitUnit c"
    and loop: "decodeLoop D 0 initialN initialBias bs = Inr arr"
  shows "decode ((if int (length (map stringFromCharCode bs)) \<noteq> 0
                  then map stringFromCharCode bs @ [delimiter]
                  else map stringFromCharCode bs) @ D) = fromCodePoint arr"
proof -
  have nodel: "delimiter \<notin> set D" using digits digitUnit_not_delimiter by blast
  show ?thesis
  proof (cases "bs = []")
    case True
    with nodel loop show ?thesis
      by (simp add: decode_def decodePoints_def lastIndexOf_none)
  next
    case False
    let ?b = "map stringFromCharCode bs"
    have pos: "0 < int (length ?b)" using False by simp
    have li: "lastIndexOf (?b @ delimiter # D) delimiter = int (length ?b)"
      using nodel by (rule lastIndexOf_last)
    have cb: "copyBasic ?b [] = Inr bs"
      using copyBasic_basics [OF basics, of "[]"] by simp
    have whole: "(if int (length ?b) \<noteq> 0 then ?b @ [delimiter] else ?b) @ D
        = ?b @ delimiter # D" using False by simp
    have tk: "take (nat (int (length ?b))) (?b @ delimiter # D) = ?b" by simp
    have "nat (int (length ?b) + 1) = Suc (length ?b)" by simp
    then have dr: "drop (nat (int (length ?b) + 1)) (?b @ delimiter # D) = D" by simp
    show ?thesis
      unfolding whole decode_def decodePoints_def li Let_def
      using pos by (simp only: tk dr cb loop if_True if_False sum.case not_less_iff_gr_or_eq
          split: if_splits) simp
  qed
qed

lemma ucs2decode_low: "uint v < 0xD800 \<Longrightarrow> ucs2decode (v # s) = uint v # ucs2decode s"
  by (cases s) (simp_all add: ucs2decode_single)

lemma ucs2decode_replicate:
  "uint v < 0xD800 \<Longrightarrow> ucs2decode (replicate k v @ s) = replicate k (uint v) @ ucs2decode s"
  by (induction k) (simp_all add: ucs2decode_low)

lemma wellFormed_low: "uint v < 0xD800 \<Longrightarrow> wellFormed (v # s) = wellFormed s"
  by (cases s) (simp_all add: highSurrogate_def lowSurrogate_def)

lemma wellFormed_replicate:
  "uint v < 0xD800 \<Longrightarrow> wellFormed (replicate k v @ s) = wellFormed s"
  by (induction k) (simp_all add: wellFormed_low)

lemma nextM_replicate: "c < n \<Longrightarrow> nextM (replicate k c @ xs) n m = nextM xs n m"
  by (induction k) simp_all

text \<open>
  Claim C1, as amended: for every string whose surrogates all come in pairs and that has at
  most 1927 code points, \<open>encode\<close> returns a string, and \<open>decode\<close> gives the input back from
  it.
\<close>

theorem encode_decode_roundtrip:
  assumes "wellFormed s" and "length (ucs2decode s) \<le> 1927"
  shows "\<exists>p. encode s = Some (Inr p) \<and> decode p = Inr s"
proof -
  define arr where "arr = ucs2decode s"
  define bs where "bs = filter (\<lambda>c. c < 0x80) arr"
  define bl where "bl = int (length (map stringFromCharCode bs))"
  define out' where "out' = (if bl \<noteq> 0 then map stringFromCharCode bs @ [delimiter]
                              else map stringFromCharCode bs)"
  have top: "\<forall>c\<in>set arr. c \<le> 0x10FFFF"
    using ucs2decode_range [of s] unfolding arr_def by blast
  have len: "length arr \<le> 1927" using assms(2) by (simp add: arr_def)
  have bl: "bl = cntLt arr 128" by (simp add: bl_def bs_def cntLt_def)
  have "0 \<le> bl" by (simp add: bl_def)
  then have hd: "headInv arr bl 128 0 bl 0 128"
    unfolding headInv_def using bl by simp
  have b72: "(72 :: int) \<le> 234" by simp
  from loop_sim [OF top len bl hd b72, of out']
  obtain D where D: "encodeLoop arr bl 128 0 72 bl out' = Some (Inr (out' @ D))"
    "\<forall>c\<in>set D. digitUnit c"
    "decodeLoop D 0 128 72 (filter (\<lambda>c. c < 128) arr) = Inr arr"
    by blast
  have enc: "encode s = Some (Inr (out' @ D))"
    unfolding encode_def Let_def arr_def [symmetric] bs_def [symmetric] bl_def [symmetric]
      out'_def [symmetric]
    using D(1) by (simp add: params)
  have basics: "\<forall>c\<in>set bs. 0 \<le> c \<and> c < 0x80"
    using ucs2decode_range [of s] by (auto simp: bs_def arr_def)
  have loop: "decodeLoop D 0 initialN initialBias bs = Inr arr"
    using D(3) by (simp add: params bs_def)
  have "decode (out' @ D) = fromCodePoint arr"
    unfolding out'_def bl_def using basics D(2) loop by (rule decode_encoded)
  also have "\<dots> = Inr s" unfolding arr_def using assms(1) by (rule fromCodePoint_ucs2decode)
  finally show ?thesis using enc by blast
qed

theorem encode_decode_roundtrip_witness:
  "wellFormed [0x6D, 0xFC, 0x6E, 0x63, 0x68, 0x65, 0x6E]
   \<and> encode [0x6D, 0xFC, 0x6E, 0x63, 0x68, 0x65, 0x6E]
       = Some (Inr [0x6D, 0x6E, 0x63, 0x68, 0x65, 0x6E, 0x2D, 0x33, 0x79, 0x61])
   \<and> decode [0x6D, 0x6E, 0x63, 0x68, 0x65, 0x6E, 0x2D, 0x33, 0x79, 0x61]
       = Inr [0x6D, 0xFC, 0x6E, 0x63, 0x68, 0x65, 0x6E]"
proof -
  let ?s = "[0x6D, 0xFC, 0x6E, 0x63, 0x68, 0x65, 0x6E] :: jsstring"
  have wf: "wellFormed ?s"
    by (simp add: highSurrogate_def lowSurrogate_def)
  have len: "length (ucs2decode ?s) \<le> 1927"
    by code_simp
  have enc: "encode ?s = Some (Inr [0x6D, 0x6E, 0x63, 0x68, 0x65, 0x6E, 0x2D, 0x33, 0x79, 0x61])"
    by code_simp
  from encode_decode_roundtrip [OF wf len] wf enc show ?thesis by auto
qed

text \<open>The claim as stated fails for long strings: on 1927 times \<open>"a"\<close> followed by
  U+10FFFF, a string of 1928 code points with no lone surrogate, \<open>encode\<close> raises
  \<open>Overflow\<close>, so there is nothing to decode. The bound of 1927 code points is the largest
  one under which no input overflows.\<close>

theorem encode_overflow:
  "wellFormed (replicate 1927 0x61 @ [0xDBFF, 0xDFFF])
   \<and> encode (replicate 1927 0x61 @ [0xDBFF, 0xDFFF]) = Some (error Overflow)"
proof -
  have low: "uint (0x61 :: 16 word) < 0xD800" by simp
  have wf: "wellFormed (replicate 1927 0x61 @ [0xDBFF, 0xDFFF])"
    unfolding wellFormed_replicate [OF low] by (simp add: highSurrogate_def lowSurrogate_def)
  have pair: "ucs2decode [0xDBFF, 0xDFFF] = [0x10FFFF]" by code_simp
  have arr: "ucs2decode (replicate 1927 0x61 @ [0xDBFF, 0xDFFF]) = replicate 1927 0x61 @ [0x10FFFF]"
    unfolding ucs2decode_replicate [OF low] pair by simp
  have m: "nextM (replicate 1927 0x61 @ [0x10FFFF]) 128 maxInt = 0x10FFFF"
    by (simp add: nextM_replicate maxInt_def)
  have "encode (replicate 1927 0x61 @ [0xDBFF, 0xDFFF]) = Some (error Overflow)"
    unfolding encode_def arr Let_def
    by (subst encodeLoop.simps) (simp add: m [unfolded maxInt_def] params Let_def)
  with wf show ?thesis by simp
qed

section \<open>The digits that decode reads are the ones encode writes\<close>




section \<open>What a run of the decoder leaves of its state in the result\<close>



lemma length_splice [simp]: "length (splice out p x) = Suc (length out)"
  by (simp add: splice_def)





section \<open>The slot of the next insertion\<close>



section \<open>Code points written as units and read back\<close>



section \<open>The parts of a string that decode accepts\<close>





section \<open>Where the next insertion can be\<close>




section \<open>The array seen from a place of the encoder\<close>





section \<open>A pass of the encoder along a run of the decoder\<close>



section \<open>The encoding loop along a run of the decoder\<close>


section \<open>The round trip from an encoded string (claim C2)\<close>




end
